theory Spec2Isabelle
  imports Main "HOL-Library.Sublist" "HOL-Library.AList"
begin

section \<open>JavaScript values\<close>

text \<open>
  The values the hub handles: what \<open>JSON.parse\<close> can produce, what the storage adapter
  hands to a completion callback, and \<open>undefined\<close>. Numbers are the integral ones.
  An object is the list of its own properties.
\<close>

datatype jsval =
    JUndefined
  | JNull
  | JBool bool
  | JNum int
  | JStr string
  | JArr "jsval list"
  | JObj "(string \<times> jsval) list"

text \<open>The test \<open>if (v)\<close> and its negation \<open>!v\<close>.\<close>

fun truthy :: "jsval \<Rightarrow> bool" where
  "truthy JUndefined = False"
| "truthy JNull = False"
| "truthy (JBool b) = b"
| "truthy (JNum n) = (n \<noteq> 0)"
| "truthy (JStr s) = (s \<noteq> [])"
| "truthy (JArr xs) = True"
| "truthy (JObj kvs) = True"

section \<open>The permission table and the authorizer\<close>

text \<open>
  An entry of the array given to \<open>init\<close> is an object read at \<open>origin\<close> and \<open>allow\<close>
  (a field it lacks reads \<open>undefined\<close>; an array element that is \<open>null\<close> or
  \<open>undefined\<close> is not an entry and is not represented).
  \<open>entry.origin instanceof RegExp\<close> separates a regular expression from any other value;
  a regular expression is represented by the strings its \<open>test\<close> accepts (one without
  the global or sticky flag, whose \<open>test\<close> does not depend on earlier calls).
\<close>

datatype matcher = RegExp "string \<Rightarrow> bool" | NotRegExp jsval

datatype entry = Entry (entry_origin: matcher) (entry_allow: jsval)

text \<open>
  \<open>CrossStorageHub._inArray(value, array)\<close>, for the string \<open>value\<close> the hub calls it
  with: \<open>value === array[i]\<close> holds for the string of the same characters only.
\<close>

fun inArray :: "string \<Rightarrow> jsval list \<Rightarrow> bool" where
  "inArray v [] = False"
| "inArray v (x # xs) = (if JStr v = x then True else inArray v xs)"

definition available :: "jsval list" where
  "available = [JStr ''get'', JStr ''set'', JStr ''del'', JStr ''clear'', JStr ''getKeys'']"

text \<open>The loop of \<open>CrossStorageHub._permitted\<close> over the entries, from index \<open>i\<close> on.\<close>

fun permitted_scan :: "entry list \<Rightarrow> string \<Rightarrow> string \<Rightarrow> bool" where
  "permitted_scan [] origin method = False"
| "permitted_scan (e # es) origin method =
     (case entry_origin e of
        NotRegExp v \<Rightarrow> permitted_scan es origin method
      | RegExp test \<Rightarrow>
          (case entry_allow e of
             JArr allow \<Rightarrow>
               (let match = test origin in
                if match \<and> inArray method allow then True
                else permitted_scan es origin method)
           | _ \<Rightarrow> permitted_scan es origin method))"

definition permitted :: "entry list \<Rightarrow> string \<Rightarrow> string \<Rightarrow> bool" where
  "permitted permissions origin method =
     (if \<not> inArray method available then False
      else permitted_scan permissions origin method)"

text \<open>An entry both of whose fields have the expected kind.\<close>

fun well_formed :: "entry \<Rightarrow> bool" where
  "well_formed (Entry (RegExp test) (JArr allow)) = True"
| "well_formed e = False"

text \<open>What one entry grants: it is well formed, its matcher accepts, its list holds the method.\<close>

fun grants :: "entry \<Rightarrow> string \<Rightarrow> string \<Rightarrow> bool" where
  "grants (Entry (RegExp test) (JArr allow)) origin method = (test origin \<and> JStr method \<in> set allow)"
| "grants e origin method = False"

section \<open>Requests, replies and the hub's state\<close>

text \<open>
  \<open>request.params\<close> as the handlers read it: absent (\<open>undefined\<close> or \<open>null\<close>, where
  reading a property raises), or a value read at \<open>key\<close>, \<open>value\<close> and \<open>keys\<close>. The field
  \<open>keys\<close> is absent or an array, as the handlers document it; other array-like values
  are not represented.
\<close>

datatype params =
    NoParams
  | Params (params_key: jsval) (params_value: jsval) (params_keys: "jsval list option")

record request =
  req_id :: jsval
  req_method :: jsval
  req_params :: params

text \<open>
  What \<open>JSON.parse(message.data)\<close> gives the listener: a \<open>SyntaxError\<close>, a falsy value
  (\<open>null\<close>, \<open>false\<close>, \<open>0\<close>, \<open>""\<close>), or a value read at \<open>id\<close>, \<open>method\<close> and \<open>params\<close>
  (a field it lacks reads \<open>undefined\<close>). The parser itself is a parameter of the listener.
\<close>

datatype parsed = Unparsable | Falsy | Parsed request

record message =
  msg_origin :: string
  msg_data :: string

text \<open>
  The six operations of the storage adapter with their arguments. \<open>_all\<close> receives the
  name of a one-argument operation; here that is the constructor.
\<close>

datatype adapter_op =
    GetItem jsval
  | SetItem jsval jsval
  | RemoveItem jsval
  | Key jsval
  | Length
  | Clear

text \<open>
  The closures of the source, as data. \<open>ListenerCb origin request\<close> is the
  \<open>function(err, value)\<close> that \<open>_listener\<close> hands to a handler. A consumer is the
  \<open>callback\<close> given to \<open>_all\<close>: the closure of \<open>_get\<close>, the closure of \<open>_del\<close>, or (from
  \<open>_getKeys\<close>) the listener's callback itself. An adapter callback is what the adapter is
  asked to call: the listener's callback itself (\<open>_set\<close>, \<open>_clear\<close>), the closure of
  \<open>_getKeys\<close>, or the closure \<open>_all\<close> creates for item \<open>i\<close>, which shares \<open>results\<close> and
  \<open>pending\<close> (kept in the hub's state under an address) with its siblings.
\<close>

datatype listener_cb = ListenerCb string request

datatype consumer = GetCb listener_cb | DelCb listener_cb | SameCb listener_cb

datatype adapter_cb =
    DirectCb listener_cb
  | LengthCb listener_cb
  | ItemCb nat nat consumer

record call =
  call_op :: adapter_op
  call_cb :: adapter_cb

text \<open>The variables \<open>results\<close> and \<open>pending\<close> of one run of \<open>_all\<close>.\<close>

record agg =
  results :: "jsval list"
  pending :: int

text \<open>
  What \<open>window.parent.postMessage\<close> is given: a control string, or the object
  \<open>{id, error, result}\<close> before \<open>JSON.stringify\<close> (which leaves out a field that is
  \<open>undefined\<close>).
\<close>

datatype payload = Control string | Reply jsval jsval jsval

text \<open>
  What a call can raise. \<open>Internal name\<close> marks a dynamic dispatch that reached a member of
  the hub object other than the five handlers; the effect of such a call is not followed.
\<close>

datatype exn = TypeError | RangeError | Internal string

text \<open>
  The hub and what can be observed around it: \<open>_permissions\<close>, whether the listener is
  registered, the variables of the runs of \<open>_all\<close>, the operations asked of the adapter so
  far (in order; the adapter completes them later), the messages posted to the parent
  window with their target origins, and the exceptions that left the listener uncaught,
  as the window reports them.
\<close>

record hub =
  permissions :: "entry list"
  installed :: bool
  aggs :: "agg list"
  calls :: "call list"
  posted :: "(payload \<times> string) list"
  uncaught :: "exn list"

section \<open>Posting replies\<close>

text \<open>\<open>postMessage\<close> requires the target origin \<open>"*"\<close> for \<open>"file://"\<close>.\<close>

definition targetOrigin :: "string \<Rightarrow> string" where
  "targetOrigin origin = (if origin = ''file://'' then ''*'' else origin)"

definition postMessage :: "string \<Rightarrow> request \<Rightarrow> jsval \<Rightarrow> jsval \<Rightarrow> hub \<Rightarrow> hub" where
  "postMessage origin request error result h =
     (let response = Reply (req_id request) error result
      in h\<lparr>posted := posted h @ [(response, targetOrigin origin)]\<rparr>)"

text \<open>\<open>err.message\<close> for a truthy \<open>err\<close>: an object's property, \<open>undefined\<close> on anything else.\<close>

fun message_of :: "jsval \<Rightarrow> jsval" where
  "message_of (JObj kvs) = (case map_of kvs ''message'' of Some v \<Rightarrow> v | None \<Rightarrow> JUndefined)"
| "message_of v = JUndefined"

text \<open>
  The callback of \<open>_listener\<close>. Its variables \<open>error\<close> and \<open>result\<close> are never assigned on
  this path, so they are \<open>undefined\<close>.
\<close>

fun listener_callback :: "listener_cb \<Rightarrow> jsval \<Rightarrow> jsval \<Rightarrow> hub \<Rightarrow> hub" where
  "listener_callback (ListenerCb origin request) err value h =
     (if truthy err then postMessage origin request (message_of err) JUndefined h
      else postMessage origin request JUndefined value h)"

section \<open>The fan-out helper\<close>

text \<open>\<open>new Array(params.length)\<close> (its holes read \<open>undefined\<close>) and \<open>pending = params.length\<close>.\<close>

definition all_init :: "jsval list \<Rightarrow> agg" where
  "all_init params = \<lparr>results = replicate (length params) JUndefined, pending = int (length params)\<rparr>"

text \<open>\<open>xs[i] = v\<close>: JavaScript extends an array written past its end.\<close>

definition set_index :: "jsval list \<Rightarrow> nat \<Rightarrow> jsval \<Rightarrow> jsval list" where
  "set_index xs i v =
     (if i < length xs then xs[i := v]
      else xs @ replicate (i - length xs) JUndefined @ [v])"

text \<open>What \<open>_all\<close> calls its \<open>callback\<close> with: \<open>callback(err)\<close> or \<open>callback(null, results)\<close>.\<close>

datatype all_result = AllErr jsval | AllOk "jsval list"

text \<open>
  The body of the closure \<open>_all\<close> creates for item \<open>i\<close>: the new \<open>results\<close> and \<open>pending\<close>,
  and the call of \<open>callback\<close> it makes, if any.
\<close>

definition all_item_cb :: "nat \<Rightarrow> jsval \<Rightarrow> jsval \<Rightarrow> agg \<Rightarrow> agg \<times> all_result option" where
  "all_item_cb i err value a =
     (if truthy err then (a, Some (AllErr err))
      else
        (let a' = \<lparr>results = set_index (results a) i value, pending = pending a - 1\<rparr>
         in if pending a' = 0 then (a', Some (AllOk (results a'))) else (a', None)))"

text \<open>
  The adapter completing items of one run of \<open>_all\<close>, one event \<open>(i, err, value)\<close> per call
  of the closure for item \<open>i\<close>: the final variables and the calls of \<open>callback\<close>, in order.
\<close>

fun all_deliver :: "agg \<Rightarrow> (nat \<times> jsval \<times> jsval) list \<Rightarrow> agg \<times> all_result list" where
  "all_deliver a [] = (a, [])"
| "all_deliver a ((i, err, value) # evs) =
     (case all_item_cb i err value a of
        (a', out) \<Rightarrow>
          (case all_deliver a' evs of
             (a'', outs) \<Rightarrow> (a'', (case out of None \<Rightarrow> [] | Some r \<Rightarrow> [r]) @ outs)))"

text \<open>Asking the adapter for an operation: it is recorded with the callback to call.\<close>

definition adapter_call :: "adapter_op \<Rightarrow> adapter_cb \<Rightarrow> hub \<Rightarrow> hub" where
  "adapter_call operation cb h = h\<lparr>calls := calls h @ [\<lparr>call_op = operation, call_cb = cb\<rparr>]\<rparr>"

text \<open>The loop of \<open>_all\<close>: one adapter call per item, in order.\<close>

fun all_launch :: "(jsval \<Rightarrow> adapter_op) \<Rightarrow> nat \<Rightarrow> consumer \<Rightarrow> nat \<Rightarrow> jsval list \<Rightarrow> hub \<Rightarrow> hub" where
  "all_launch method a callback i [] h = h"
| "all_launch method a callback i (p # ps) h =
     all_launch method a callback (Suc i) ps (adapter_call (method p) (ItemCb a i callback) h)"

text \<open>
  \<open>CrossStorageHub._all(params, method, callback)\<close>. With \<open>params\<close> absent, reading
  \<open>params.length\<close> raises. The new variables get the next free address.
\<close>

definition hub_all :: "jsval list option \<Rightarrow> (jsval \<Rightarrow> adapter_op) \<Rightarrow> consumer \<Rightarrow> hub \<Rightarrow> exn + hub" where
  "hub_all params method callback h =
     (case params of
        None \<Rightarrow> Inl TypeError
      | Some ps \<Rightarrow>
          Inr (all_launch method (length (aggs h)) callback 0 ps
                 (h\<lparr>aggs := aggs h @ [all_init ps]\<rparr>)))"

section \<open>The five handlers\<close>

definition hub_set :: "params \<Rightarrow> listener_cb \<Rightarrow> hub \<Rightarrow> exn + hub" where
  "hub_set params callback h =
     (case params of
        NoParams \<Rightarrow> Inl TypeError
      | Params key value keys \<Rightarrow> Inr (adapter_call (SetItem key value) (DirectCb callback) h))"

text \<open>The closures of \<open>_get\<close> and \<open>_del\<close>, and the listener's callback used as a consumer.\<close>

fun consume :: "consumer \<Rightarrow> all_result \<Rightarrow> hub \<Rightarrow> exn + hub" where
  "consume (SameCb cb) (AllErr err) h = Inr (listener_callback cb err JUndefined h)"
| "consume (SameCb cb) (AllOk value) h = Inr (listener_callback cb JNull (JArr value) h)"
| "consume (GetCb cb) (AllErr err) h =
     (if truthy err then Inr (listener_callback cb err JUndefined h)
      else Inl TypeError)"
| "consume (GetCb cb) (AllOk value) h =
     (let result = (if length value > 1 then JArr value
                    else (case value of [] \<Rightarrow> JUndefined | v # vs \<Rightarrow> v))
      in if \<not> truthy result then Inr (listener_callback cb JNull JNull h)
         else Inr (listener_callback cb JNull result h))"
| "consume (DelCb cb) (AllErr err) h =
     (if truthy err then Inr (listener_callback cb err JUndefined h)
      else Inr (listener_callback cb JNull JUndefined h))"
| "consume (DelCb cb) (AllOk value) h = Inr (listener_callback cb JNull JUndefined h)"

definition hub_get :: "params \<Rightarrow> listener_cb \<Rightarrow> hub \<Rightarrow> exn + hub" where
  "hub_get params callback h =
     (case params of
        NoParams \<Rightarrow> Inl TypeError
      | Params key value keys \<Rightarrow> hub_all keys GetItem (GetCb callback) h)"

definition hub_del :: "params \<Rightarrow> listener_cb \<Rightarrow> hub \<Rightarrow> exn + hub" where
  "hub_del params callback h =
     (case params of
        NoParams \<Rightarrow> Inl TypeError
      | Params key value keys \<Rightarrow> hub_all keys RemoveItem (DelCb callback) h)"

definition hub_clear :: "params \<Rightarrow> listener_cb \<Rightarrow> hub \<Rightarrow> exn + hub" where
  "hub_clear params callback h = Inr (adapter_call Clear (DirectCb callback) h)"

definition hub_getKeys :: "params \<Rightarrow> listener_cb \<Rightarrow> hub \<Rightarrow> exn + hub" where
  "hub_getKeys params callback h = Inr (adapter_call Length (LengthCb callback) h)"

text \<open>
  In the closure of \<open>_getKeys\<close>: \<open>new Array(value)\<close> filled with \<open>0, 1, ...\<close>. A number is
  taken as a length (and must be one); any other value becomes the only element, which
  the loop then overwrites with \<open>0\<close>.
\<close>

definition indices :: "jsval \<Rightarrow> exn + jsval list" where
  "indices value =
     (case value of
        JNum n \<Rightarrow>
          if 0 \<le> n \<and> n < 2 ^ 32 then Inr (map (\<lambda>i. JNum (int i)) [0..<nat n])
          else Inl RangeError
      | _ \<Rightarrow> Inr [JNum 0])"

section \<open>Completions\<close>

text \<open>The adapter calling a callback with \<open>(err, value)\<close>.\<close>

fun invoke :: "adapter_cb \<Rightarrow> jsval \<Rightarrow> jsval \<Rightarrow> hub \<Rightarrow> exn + hub" where
  "invoke (DirectCb cb) err value h = Inr (listener_callback cb err value h)"
| "invoke (LengthCb cb) err value h =
     (if truthy err then Inr (listener_callback cb err JUndefined h)
      else
        (case indices value of
           Inl e \<Rightarrow> Inl e
         | Inr idx \<Rightarrow> hub_all (Some idx) Key (SameCb cb) h))"
| "invoke (ItemCb a i callback) err value h =
     (case all_item_cb i err value (aggs h ! a) of
        (ag, out) \<Rightarrow>
          (let h' = h\<lparr>aggs := (aggs h)[a := ag]\<rparr>
           in case out of None \<Rightarrow> Inr h' | Some r \<Rightarrow> consume callback r h'))"

text \<open>
  The adapter completes the \<open>k\<close>-th operation it was asked for; a number that names no
  operation changes nothing.
\<close>

definition complete :: "nat \<Rightarrow> jsval \<Rightarrow> jsval \<Rightarrow> hub \<Rightarrow> exn + hub" where
  "complete k err value h =
     (if k < length (calls h) then invoke (call_cb (calls h ! k)) err value h else Inr h)"

text \<open>
  A sequence of completions, in the order the adapter makes them. An exception raised
  inside a callback ends the run (it goes to the adapter, which is not followed further).
\<close>

fun run :: "(nat \<times> jsval \<times> jsval) list \<Rightarrow> hub \<Rightarrow> exn + hub" where
  "run [] h = Inr h"
| "run ((k, err, value) # evs) h =
     (case complete k err value h of Inl e \<Rightarrow> Inl e | Inr h' \<Rightarrow> run evs h')"

section \<open>The listener\<close>

text \<open>
  \<open>s.split(sep)\<close> for strings. \<open>split_at sep piece rest\<close> scans \<open>rest\<close> with \<open>piece\<close> read
  since the last separator.
\<close>

fun split_at :: "string \<Rightarrow> string \<Rightarrow> string \<Rightarrow> string list" where
  "split_at sep piece [] = [piece]"
| "split_at sep piece (c # cs) =
     (if sep \<noteq> [] \<and> prefix sep (c # cs)
      then piece # split_at sep [] (drop (length sep) (c # cs))
      else split_at sep (piece @ [c]) cs)"

definition js_split :: "string \<Rightarrow> string \<Rightarrow> string list" where
  "js_split s sep = (if sep = [] then map (\<lambda>c. [c]) s else split_at sep [] s)"

text \<open>
  For stating where a separator lies: \<open>sep\<close> occurs in \<open>s\<close> at some position below \<open>n\<close>.
\<close>

definition occurs_before :: "string \<Rightarrow> nat \<Rightarrow> string \<Rightarrow> bool" where
  "occurs_before sep n s \<longleftrightarrow> (\<exists>i<n. prefix sep (drop i s))"

text \<open>\<open>xs[1]\<close>, with \<open>None\<close> for \<open>undefined\<close>.\<close>

definition second :: "'a list \<Rightarrow> 'a option" where
  "second xs = (if 1 < length xs then Some (xs ! 1) else None)"

text \<open>
  \<open>CrossStorageHub[name]\<close> for a name that starts with an underscore: one of the five
  handlers, another member of the hub object (its own, or the accessors it inherits), or
  nothing.
\<close>

datatype handler = HSet | HGet | HDel | HClear | HGetKeys

datatype member = Handler handler | NonHandler

definition other_members :: "string list" where
  "other_members =
     [''_installListener'', ''_listener'', ''_postMessage'', ''_permitted'', ''_all'',
      ''_inArray'', ''_now'', ''_storageAdapter'', ''_permissions'',
      ''__proto__'', ''__defineGetter__'', ''__defineSetter__'',
      ''__lookupGetter__'', ''__lookupSetter__'']"

definition hub_member :: "string \<Rightarrow> member option" where
  "hub_member name =
     (if name = ''_set'' then Some (Handler HSet)
      else if name = ''_get'' then Some (Handler HGet)
      else if name = ''_del'' then Some (Handler HDel)
      else if name = ''_clear'' then Some (Handler HClear)
      else if name = ''_getKeys'' then Some (Handler HGetKeys)
      else if name \<in> set other_members then Some NonHandler
      else None)"

fun handle :: "handler \<Rightarrow> params \<Rightarrow> listener_cb \<Rightarrow> hub \<Rightarrow> exn + hub" where
  "handle HSet = hub_set"
| "handle HGet = hub_get"
| "handle HDel = hub_del"
| "handle HClear = hub_clear"
| "handle HGetKeys = hub_getKeys"

text \<open>\<open>CrossStorageHub['_' + method](request.params, function(err, value) {...})\<close>.\<close>

definition dispatch :: "string \<Rightarrow> params \<Rightarrow> listener_cb \<Rightarrow> hub \<Rightarrow> exn + hub" where
  "dispatch method params callback h =
     (case hub_member (''_'' @ method) of
        None \<Rightarrow> Inl TypeError
      | Some NonHandler \<Rightarrow> Inl (Internal (''_'' @ method))
      | Some (Handler hnd) \<Rightarrow> handle hnd params callback h)"

definition post_control :: "string \<Rightarrow> string \<Rightarrow> hub \<Rightarrow> hub" where
  "post_control text target h = h\<lparr>posted := posted h @ [(Control text, target)]\<rparr>"

text \<open>\<open>postMessage\<close> reports the string \<open>"null"\<close> as the origin of \<open>"file://"\<close>.\<close>

definition origin_of :: "message \<Rightarrow> string" where
  "origin_of message =
     (if msg_origin message = ''null'' then ''file://'' else msg_origin message)"

text \<open>\<open>CrossStorageHub._listener(message)\<close>, with \<open>JSON.parse\<close> as the parameter \<open>parse\<close>.\<close>

definition listener :: "(string \<Rightarrow> parsed) \<Rightarrow> message \<Rightarrow> hub \<Rightarrow> exn + hub" where
  "listener parse message h =
     (let origin = origin_of message
      in
        if msg_data message = ''cross-storage:poll''
        then Inr (post_control ''cross-storage:ready'' (msg_origin message) h)
        else if msg_data message = ''cross-storage:ready'' then Inr h
        else
          (case parse (msg_data message) of
             Unparsable \<Rightarrow> Inr h
           | Falsy \<Rightarrow> Inr h
           | Parsed request \<Rightarrow>
               (case req_method request of
                  JStr s \<Rightarrow>
                    (case second (js_split s ''cross-storage:'') of
                       None \<Rightarrow> Inr h
                     | Some method \<Rightarrow>
                         if method = [] then Inr h
                         else if \<not> permitted (permissions h) origin method
                         then Inr (postMessage origin request
                                     (JStr (''Invalid permissions for '' @ method)) JUndefined h)
                         else dispatch method (req_params request)
                                (ListenerCb origin request) h)
                | _ \<Rightarrow> Inr h)))"

section \<open>Initialization\<close>

text \<open>
  \<open>window.localStorage\<close> as \<open>init\<close> probes it: usable, falsy, or raising on access
  (third-party access disabled).
\<close>

datatype local_storage = Usable | Missing | Forbidden

text \<open>
  \<open>CrossStorageHub.init(permissions, StorageAdapter)\<close>: \<open>permissions\<close> is \<open>None\<close> when
  it is \<open>null\<close> or left out, \<open>adapter_given\<close> says whether \<open>StorageAdapter\<close> is truthy.
  When no storage is available nothing of the hub is set up.
\<close>

definition init :: "entry list option \<Rightarrow> bool \<Rightarrow> local_storage \<Rightarrow> hub" where
  "init perms adapter_given storage =
     (let available = (adapter_given \<or> storage = Usable)
      in
        if \<not> available
        then \<lparr>permissions = [], installed = False, aggs = [], calls = [],
              posted = [(Control ''cross-storage:unavailable'', ''*'')], uncaught = []\<rparr>
        else \<lparr>permissions = (case perms of None \<Rightarrow> [] | Some ps \<Rightarrow> ps),
              installed = True, aggs = [], calls = [],
              posted = [(Control ''cross-storage:ready'', ''*'')], uncaught = []\<rparr>)"

section \<open>A storage adapter that keeps what it is given\<close>

text \<open>
  A store in memory behind the adapter interface: every operation succeeds, \<open>getItem\<close>
  returns the value last written under the key (\<open>null\<close> when there is none).
\<close>

type_synonym store = "(jsval \<times> jsval) list"

fun store_exec :: "adapter_op \<Rightarrow> store \<Rightarrow> store \<times> jsval \<times> jsval" where
  "store_exec (GetItem k) s = (s, JNull, (case map_of s k of Some v \<Rightarrow> v | None \<Rightarrow> JNull))"
| "store_exec (SetItem k v) s = (AList.update k v s, JNull, JUndefined)"
| "store_exec (RemoveItem k) s = (AList.delete k s, JNull, JUndefined)"
| "store_exec (Key (JNum n)) s =
     (s, JNull, (if 0 \<le> n \<and> nat n < length s then fst (s ! nat n) else JNull))"
| "store_exec (Key v) s = (s, JNull, JNull)"
| "store_exec Length s = (s, JNull, JNum (int (length s)))"
| "store_exec Clear s = ([], JNull, JUndefined)"

text \<open>The store performs the \<open>k\<close>-th operation asked of it and calls the callback.\<close>

definition serve :: "nat \<Rightarrow> hub \<times> store \<Rightarrow> exn + hub \<times> store" where
  "serve k w =
     (case w of
        (h, s) \<Rightarrow>
          if k < length (calls h) then
            (case store_exec (call_op (calls h ! k)) s of
               (s', err, value) \<Rightarrow>
                 (case complete k err value h of
                    Inl e \<Rightarrow> Inl e
                  | Inr h' \<Rightarrow> Inr (h', s')))
          else Inr (h, s))"

text \<open>
  What happens around the hub: a message arrives (the listener runs if it is registered),
  or the store performs a pending operation. Nothing in the hub catches an exception
  that leaves the listener: the window reports it, the listener stays registered, and
  the hub is as it was when the message arrived (every raise of the listener comes
  before its first change to the hub). An exception raised while the store calls a
  callback goes to the store and ends the sequence.
\<close>

datatype event = Receive message | Serve nat

fun drive :: "(string \<Rightarrow> parsed) \<Rightarrow> event list \<Rightarrow> hub \<times> store \<Rightarrow> exn + hub \<times> store" where
  "drive parse [] w = Inr w"
| "drive parse (Receive m # es) (h, s) =
     (if installed h then
        (case listener parse m h of
           Inl e \<Rightarrow> drive parse es (h\<lparr>uncaught := uncaught h @ [e]\<rparr>, s)
         | Inr h' \<Rightarrow> drive parse es (h', s))
      else drive parse es (h, s))"
| "drive parse (Serve k # es) w =
     (case serve k w of Inl e \<Rightarrow> Inl e | Inr w' \<Rightarrow> drive parse es w')"

section \<open>Properties of the authorizer\<close>

lemma inArray_iff: "inArray v xs \<longleftrightarrow> JStr v \<in> set xs"
  by (induction xs) auto

lemma permitted_scan_iff:
  "permitted_scan es origin method \<longleftrightarrow> (\<exists>e \<in> set es. grants e origin method)"
proof (induction es)
  case Nil
  show ?case by simp
next
  case (Cons e es)
  obtain m a where e: "e = Entry m a" by (cases e)
  show ?case
  proof (cases m)
    case (NotRegExp v)
    with e Cons show ?thesis by simp
  next
    case (RegExp test)
    with e Cons show ?thesis
      by (cases a) (auto simp: inArray_iff)
  qed
qed

lemma recognized_names:
  "inArray method available \<longleftrightarrow> method \<in> {''get'', ''set'', ''del'', ''clear'', ''getKeys''}"
  by (auto simp: inArray_iff available_def)

lemma permitted_scan_append:
  "permitted_scan (ps @ qs) origin method \<longleftrightarrow>
     permitted_scan ps origin method \<or> permitted_scan qs origin method"
  by (auto simp: permitted_scan_iff)

lemma grants_iff:
  "grants e origin name \<longleftrightarrow>
     (\<exists>test allow. e = Entry (RegExp test) (JArr allow) \<and> test origin \<and> JStr name \<in> set allow)"
  by (induction e origin name rule: grants.induct) auto

lemma grants_well_formed: "grants e origin name \<Longrightarrow> well_formed e"
  by (induction e origin name rule: grants.induct) auto

text \<open>
  Claim C1. \<open>permitted\<close> is true exactly when the method is one of the five recognized
  names and some entry of the table whose \<open>origin\<close> is a regular expression and whose
  \<open>allow\<close> is an array both accepts the origin and lists the method. So it is false
  for any other method name whatever the table holds; an entry with a field of the wrong
  kind can be deleted from the table without changing any answer; and the answer for a
  table is the disjunction of the answers for its parts, so an entry that matches the
  origin without allowing the method does not stop a later entry from granting it.
\<close>

theorem permitted_characterised:
  "(permitted perms origin method \<longleftrightarrow>
      method \<in> {''get'', ''set'', ''del'', ''clear'', ''getKeys''} \<and>
      (\<exists>e \<in> set perms. \<exists>test allow.
          e = Entry (RegExp test) (JArr allow) \<and> test origin \<and> JStr method \<in> set allow))
   \<and> (method \<notin> {''get'', ''set'', ''del'', ''clear'', ''getKeys''} \<longrightarrow>
        \<not> permitted perms origin method)
   \<and> (\<not> well_formed bad \<longrightarrow>
        permitted (ps @ bad # qs) origin method = permitted (ps @ qs) origin method)
   \<and> (permitted (ps @ qs) origin method \<longleftrightarrow>
        permitted ps origin method \<or> permitted qs origin method)"
proof (intro conjI impI)
  show main: "permitted perms origin method \<longleftrightarrow>
      method \<in> {''get'', ''set'', ''del'', ''clear'', ''getKeys''} \<and>
      (\<exists>e \<in> set perms. \<exists>test allow.
          e = Entry (RegExp test) (JArr allow) \<and> test origin \<and> JStr method \<in> set allow)"
    unfolding permitted_def permitted_scan_iff recognized_names grants_iff by auto
  show "\<not> permitted perms origin method"
    if "method \<notin> {''get'', ''set'', ''del'', ''clear'', ''getKeys''}"
    using that unfolding permitted_def recognized_names by simp
  show "permitted (ps @ bad # qs) origin method = permitted (ps @ qs) origin method"
    if "\<not> well_formed bad"
  proof -
    from that have "\<not> grants bad origin method"
      using grants_well_formed by blast
    then show ?thesis
      unfolding permitted_def permitted_scan_iff by auto
  qed
  show "permitted (ps @ qs) origin method \<longleftrightarrow>
        permitted ps origin method \<or> permitted qs origin method"
    unfolding permitted_def permitted_scan_append by auto
qed

text \<open>
  The table \<open>[{origin: null, allow: ['del']}, {origin: /^http:\/\/a\.com$/, allow: ['set']},
  {origin: /^http:\/\/a\.com$/, allow: ['get', 'foo']}]\<close>: \<open>get\<close> is granted by the third
  entry although the second matches the origin; \<open>del\<close> and \<open>foo\<close> are not granted.
\<close>

theorem permitted_characterised_witness:
  "permitted
     [Entry (NotRegExp JNull) (JArr [JStr ''del'']),
      Entry (RegExp (\<lambda>s. s = ''http://a.com'')) (JArr [JStr ''set'']),
      Entry (RegExp (\<lambda>s. s = ''http://a.com'')) (JArr [JStr ''get'', JStr ''foo''])]
     ''http://a.com'' ''get''
   \<and> ''foo'' \<notin> {''get'', ''set'', ''del'', ''clear'', ''getKeys''}
   \<and> \<not> permitted
     [Entry (NotRegExp JNull) (JArr [JStr ''del'']),
      Entry (RegExp (\<lambda>s. s = ''http://a.com'')) (JArr [JStr ''set'']),
      Entry (RegExp (\<lambda>s. s = ''http://a.com'')) (JArr [JStr ''get'', JStr ''foo''])]
     ''http://a.com'' ''foo''
   \<and> \<not> well_formed (Entry (NotRegExp JNull) (JArr [JStr ''del'']))
   \<and> \<not> permitted
     ([] @ Entry (NotRegExp JNull) (JArr [JStr ''del'']) #
      [Entry (RegExp (\<lambda>s. s = ''http://a.com'')) (JArr [JStr ''set''])])
     ''http://a.com'' ''del''"
proof -
  let ?bad = "Entry (NotRegExp JNull) (JArr [JStr ''del''])"
  let ?e1 = "Entry (RegExp (\<lambda>s. s = ''http://a.com'')) (JArr [JStr ''set''])"
  let ?e2 = "Entry (RegExp (\<lambda>s. s = ''http://a.com'')) (JArr [JStr ''get'', JStr ''foo''])"
  note iff = permitted_characterised [THEN conjunct1]
  note unknown = permitted_characterised [THEN conjunct2, THEN conjunct1, rule_format]
  note skip = permitted_characterised [THEN conjunct2, THEN conjunct2, THEN conjunct1, rule_format]
  have a: "permitted [?bad, ?e1, ?e2] ''http://a.com'' ''get''"
    by (simp add: iff)
  have b: "''foo'' \<notin> {''get'', ''set'', ''del'', ''clear'', ''getKeys''}"
    by simp
  have c: "\<not> permitted [?bad, ?e1, ?e2] ''http://a.com'' ''foo''"
    by (rule unknown [OF b])
  have d: "\<not> well_formed ?bad"
    by simp
  have e: "\<not> permitted ([] @ ?bad # [?e1]) ''http://a.com'' ''del''"
    unfolding skip [OF d] by (simp add: iff)
  from a b c d e show ?thesis by (intro conjI)
qed

section \<open>Properties of the fan-out helper\<close>

lemma all_deliver_failures:
  "int (length (filter (\<lambda>(i, e, v). \<not> truthy e) evs)) < pending a \<Longrightarrow>
   all_deliver a evs = (\<lparr>results = foldl (\<lambda>rs (i, e, v). if truthy e then rs else set_index rs i v) (results a) evs,
                          pending = pending a - int (length (filter (\<lambda>(i, e, v). \<not> truthy e) evs))\<rparr>,
                        map (\<lambda>(i, e, v). AllErr e) (filter (\<lambda>(i, e, v). truthy e) evs))"
proof (induction evs arbitrary: a)
  case Nil
  show ?case by simp
next
  case (Cons ev evs)
  obtain i e v where ev: "ev = (i, e, v)" by (cases ev)
  show ?case
  proof (cases "truthy e")
    case True
    with Cons ev show ?thesis by (simp add: all_item_cb_def)
  next
    case False
    let ?a = "\<lparr>results = set_index (results a) i v, pending = pending a - 1\<rparr>"
    from Cons.prems ev False
    have less: "int (length (filter (\<lambda>(i, e, v). \<not> truthy e) evs)) < pending ?a" by simp
    then have "pending ?a \<noteq> 0" by simp
    with False have step: "all_item_cb i e v a = (?a, None)"
      by (simp add: all_item_cb_def Let_def)
    show ?thesis using Cons.IH [OF less] ev False step by simp
  qed
qed

lemma all_deliver_successes:
  "\<forall>(i, e, v) \<in> set evs. \<not> truthy e \<Longrightarrow> pending a = int (length evs) \<Longrightarrow>
   all_deliver a evs =
     (\<lparr>results = foldl (\<lambda>rs (i, e, v). set_index rs i v) (results a) evs, pending = 0\<rparr>,
      if evs = [] then [] else [AllOk (foldl (\<lambda>rs (i, e, v). set_index rs i v) (results a) evs)])"
proof (induction evs arbitrary: a)
  case Nil
  then show ?case by simp
next
  case (Cons ev evs)
  obtain i e v where ev: "ev = (i, e, v)" by (cases ev)
  let ?a = "\<lparr>results = set_index (results a) i v, pending = pending a - 1\<rparr>"
  from Cons.prems ev have ok: "\<not> truthy e" and rest: "\<forall>(i, e, v) \<in> set evs. \<not> truthy e"
    and p: "pending ?a = int (length evs)" by auto
  show ?case
  proof (cases evs)
    case Nil
    with p ok ev show ?thesis by (simp add: all_item_cb_def Let_def)
  next
    case (Cons ev' evs')
    with p have "pending ?a \<noteq> 0" by simp
    with ok have step: "all_item_cb i e v a = (?a, None)"
      by (simp add: all_item_cb_def Let_def)
    show ?thesis using Cons.IH [OF rest p] ev step Cons by simp
  qed
qed

lemma length_set_index: "i < length xs \<Longrightarrow> length (set_index xs i v) = length xs"
  by (simp add: set_index_def)

lemma writes_length:
  "\<forall>(i, e, v) \<in> set evs. i < length rs \<Longrightarrow>
   length (foldl (\<lambda>rs (i, e, v). set_index rs i v) rs evs) = length rs"
  by (induction evs arbitrary: rs) (auto simp: length_set_index)

lemma writes_untouched:
  "j \<notin> fst ` set evs \<Longrightarrow> \<forall>(i, e, v) \<in> set evs. i < length rs \<Longrightarrow>
   foldl (\<lambda>rs (i, e, v). set_index rs i v) rs evs ! j = rs ! j"
  by (induction evs arbitrary: rs) (auto simp: length_set_index set_index_def)

lemma writes_aligned:
  "distinct (map fst evs) \<Longrightarrow> \<forall>(i, e, v) \<in> set evs. i < length rs \<Longrightarrow>
   (i, e, v) \<in> set evs \<Longrightarrow>
   foldl (\<lambda>rs (i, e, v). set_index rs i v) rs evs ! i = v"
proof (induction evs arbitrary: rs)
  case Nil
  then show ?case by simp
next
  case (Cons ev evs)
  obtain i' e' v' where ev: "ev = (i', e', v')" by (cases ev)
  show ?case
  proof (cases "(i, e, v) = ev")
    case True
    with Cons.prems ev have fresh: "i \<notin> fst ` set evs" and inside: "i < length rs"
      and others: "\<forall>(i, e, v) \<in> set evs. i < length (set_index rs i' v')"
      by (auto simp: length_set_index)
    have "foldl (\<lambda>rs (i, e, v). set_index rs i v) (set_index rs i' v') evs ! i
            = set_index rs i' v' ! i"
      by (rule writes_untouched [OF fresh others])
    also from True ev inside have "\<dots> = v" by (simp add: set_index_def)
    finally show ?thesis using ev by simp
  next
    case False
    with Cons.prems ev show ?thesis
      by (auto simp: length_set_index intro!: Cons.IH)
  qed
qed


text \<open>
  Claim C2. When two items of one run fail, \<open>callback\<close> is called twice, once with each
  failure: nothing in the closure remembers that \<open>callback\<close> was already called. (By
  \<open>all_deliver_failures\<close> a run with a failure never calls \<open>callback\<close> with results, and calls
  it once for every failing item, in the order of completion.)
\<close>

theorem all_fails_twice:
  "snd (all_deliver (all_init [JStr ''a'', JStr ''b''])
          [(0, JObj [(''message'', JStr ''denied'')], JUndefined),
           (1, JObj [(''message'', JStr ''denied too'')], JUndefined)])
     = [AllErr (JObj [(''message'', JStr ''denied'')]),
        AllErr (JObj [(''message'', JStr ''denied too'')])]"
  by (simp add: all_init_def all_item_cb_def)

text \<open>
  Claim C3. For an empty \<open>params\<close> the loop of \<open>_all\<close> asks the adapter for nothing, so no
  closure exists that could call \<open>callback\<close>: it is never called, where the claim has it
  called once with an empty array.
\<close>

theorem all_empty_never_calls_back:
  "hub_all (Some []) method callback h = Inr (h\<lparr>aggs := aggs h @ [\<lparr>results = [], pending = 0\<rparr>]\<rparr>)
   \<and> snd (all_deliver (all_init []) []) = []"
  by (simp add: hub_all_def all_init_def)

section \<open>Properties of the listener and the handlers\<close>

lemma all_launch_eq:
  "all_launch method a callback i ps h =
     h\<lparr>calls := calls h @ map (\<lambda>(j, p). \<lparr>call_op = method p, call_cb = ItemCb a j callback\<rparr>) (enumerate i ps)\<rparr>"
  by (induction ps arbitrary: i h) (simp_all add: adapter_call_def)

lemma hub_all_eq:
  "hub_all (Some ps) method callback h =
     Inr (h\<lparr>aggs := aggs h @ [all_init ps],
            calls := calls h @ map (\<lambda>(j, p). \<lparr>call_op = method p, call_cb = ItemCb (length (aggs h)) j callback\<rparr>) (enumerate 0 ps)\<rparr>)"
  by (simp add: hub_all_def all_launch_eq)

lemma split_names:
  "second (js_split ''cross-storage:get'' ''cross-storage:'') = Some ''get''"
  "second (js_split ''cross-storage:set'' ''cross-storage:'') = Some ''set''"
  "second (js_split ''cross-storage:del'' ''cross-storage:'') = Some ''del''"
  "second (js_split ''cross-storage:clear'' ''cross-storage:'') = Some ''clear''"
  "second (js_split ''cross-storage:getKeys'' ''cross-storage:'') = Some ''getKeys''"
  by (simp_all add: js_split_def second_def)

lemma dispatch_names:
  "dispatch ''get'' = hub_get"
  "dispatch ''set'' = hub_set"
  "dispatch ''del'' = hub_del"
  "dispatch ''clear'' = hub_clear"
  "dispatch ''getKeys'' = hub_getKeys"
  by (simp_all add: dispatch_def hub_member_def fun_eq_iff)

lemma listener_request:
  assumes "msg_data m \<noteq> ''cross-storage:poll''" and "msg_data m \<noteq> ''cross-storage:ready''"
      and "parse (msg_data m) = Parsed r" and "req_method r = JStr s"
      and "second (js_split s ''cross-storage:'') = Some name" and "name \<noteq> []"
  shows "listener parse m h =
           (if \<not> permitted (permissions h) (origin_of m) name
            then Inr (postMessage (origin_of m) r (JStr (''Invalid permissions for '' @ name)) JUndefined h)
            else dispatch name (req_params r) (ListenerCb (origin_of m) r) h)"
  using assms by (simp add: listener_def)

lemma run_items_success:
  assumes "evs \<noteq> []"
      and "\<forall>(i, e, v) \<in> set evs. \<not> truthy e \<and> b + i < length (calls h) \<and>
              call_cb (calls h ! (b + i)) = ItemCb a i c"
      and "a < length (aggs h)"
      and "pending (aggs h ! a) = int (length evs)"
  shows "run (map (\<lambda>(i, e, v). (b + i, e, v)) evs) h =
           consume c (AllOk (foldl (\<lambda>rs (i, e, v). set_index rs i v) (results (aggs h ! a)) evs))
             (h\<lparr>aggs := (aggs h)[a := \<lparr>results = foldl (\<lambda>rs (i, e, v). set_index rs i v)
                                                    (results (aggs h ! a)) evs,
                                       pending = 0\<rparr>]\<rparr>)"
  using assms
proof (induction evs arbitrary: h)
  case Nil
  then show ?case by simp
next
  case (Cons ev evs)
  obtain i e v where ev: "ev = (i, e, v)" by (cases ev)
  let ?ag = "\<lparr>results = set_index (results (aggs h ! a)) i v, pending = pending (aggs h ! a) - 1\<rparr>"
  let ?h = "h\<lparr>aggs := (aggs h)[a := ?ag]\<rparr>"
  from Cons.prems ev have ok: "\<not> truthy e" and k: "b + i < length (calls h)"
    and cb: "call_cb (calls h ! (b + i)) = ItemCb a i c" by auto
  show ?case
  proof (cases evs)
    case Nil
    with Cons.prems have "pending ?ag = 0" by simp
    with ok have "all_item_cb i e v (aggs h ! a) = (?ag, Some (AllOk (results ?ag)))"
      by (simp add: all_item_cb_def Let_def)
    with k cb Nil ev Cons.prems(4) show ?thesis
      by (simp add: complete_def split: sum.split)
  next
    case (Cons ev' evs')
    with Cons.prems have "pending ?ag \<noteq> 0" by simp
    with ok have step: "all_item_cb i e v (aggs h ! a) = (?ag, None)"
      by (simp add: all_item_cb_def Let_def)
    with k cb have first: "complete (b + i) e v h = Inr ?h"
      by (simp add: complete_def)
    have "run (map (\<lambda>(i, e, v). (b + i, e, v)) evs) ?h =
           consume c (AllOk (foldl (\<lambda>rs (i, e, v). set_index rs i v) (results (aggs ?h ! a)) evs))
             (?h\<lparr>aggs := (aggs ?h)[a := \<lparr>results = foldl (\<lambda>rs (i, e, v). set_index rs i v)
                                                    (results (aggs ?h ! a)) evs,
                                       pending = 0\<rparr>]\<rparr>)"
    proof (rule Cons.IH)
      show "evs \<noteq> []" using Cons by simp
      show "\<forall>(i, e, v) \<in> set evs. \<not> truthy e \<and> b + i < length (calls ?h) \<and>
              call_cb (calls ?h ! (b + i)) = ItemCb a i c"
        using Cons.prems(2) by simp
      show "a < length (aggs ?h)" using Cons.prems(3) by simp
      show "pending (aggs ?h ! a) = int (length evs)" using Cons.prems(3,4) by simp
    qed
    with first ev Cons.prems(3) show ?thesis by simp
  qed
qed

lemma map_enumerate_snd: "map (\<lambda>x. f (snd x)) (enumerate i ps) = map f ps"
  by (induction ps arbitrary: i) simp_all

lemma consume_get_ok:
  "rs \<noteq> [] \<Longrightarrow>
   consume (GetCb (ListenerCb origin r)) (AllOk rs) h =
     Inr (h\<lparr>posted := posted h @
            [(Reply (req_id r) JUndefined
                (if length rs = 1 then (if truthy (rs ! 0) then rs ! 0 else JNull) else JArr rs),
              targetOrigin origin)]\<rparr>)"
  by (cases rs) (auto simp: postMessage_def Let_def)


text \<open>
  Claim C7. \<open>_all\<close> over \<open>params\<close> asks the adapter, in order, for the operation on each
  item. When the adapter has completed each of these operations once, successfully, in
  any order, then for at least one item \<open>callback\<close> has been called exactly once, with an
  array as long as \<open>params\<close> whose element \<open>i\<close> is the value the adapter gave for the
  operation on item \<open>i\<close>. For no item nothing is asked of the adapter and \<open>callback\<close> is
  not called at all, where the claim has it receive the sequence of length \<open>0\<close>.
\<close>

theorem fan_out_aligned:
  assumes once: "distinct (map fst evs)"
      and every: "fst ` set evs = {..<length ps}"
      and succeed: "\<forall>(i, e, v) \<in> set evs. \<not> truthy e"
  shows "\<exists>h1 rs.
           hub_all (Some ps) method callback h = Inr h1
         \<and> map call_op (drop (length (calls h)) (calls h1)) = map method ps
         \<and> length rs = length ps \<and> (\<forall>(i, e, v) \<in> set evs. rs ! i = v)
         \<and> run (map (\<lambda>(i, e, v). (length (calls h) + i, e, v)) evs) h1 =
             (if ps = [] then Inr h1
              else consume callback (AllOk rs)
                     (h1\<lparr>aggs := (aggs h1)[length (aggs h) := \<lparr>results = rs, pending = 0\<rparr>]\<rparr>))"
proof -
  let ?a = "length (aggs h)"
  let ?b = "length (calls h)"
  let ?h1 = "h\<lparr>aggs := aggs h @ [all_init ps],
               calls := calls h @ map (\<lambda>(j, p). \<lparr>call_op = method p, call_cb = ItemCb ?a j callback\<rparr>)
                                      (enumerate 0 ps)\<rparr>"
  let ?rs = "foldl (\<lambda>rs (i, e, v). set_index rs i v) (replicate (length ps) JUndefined) evs"
  have launch: "hub_all (Some ps) method callback h = Inr ?h1"
    by (rule hub_all_eq)
  have ops: "map call_op (drop ?b (calls ?h1)) = map method ps"
    by (simp add: o_def split_def map_enumerate_snd)
  from once have "length evs = card (fst ` set evs)"
    by (metis distinct_card length_map set_map)
  with every have len: "length evs = length ps" by simp
  have inside: "i < length ps" if "(i, e, v) \<in> set evs" for i e v
  proof -
    from that have "i \<in> fst ` set evs" by force
    with every show ?thesis by simp
  qed
  have inside': "\<forall>(i, e, v) \<in> set evs. i < length (replicate (length ps) JUndefined)"
    using inside by auto
  have lrs: "length ?rs = length ps"
    using writes_length [OF inside'] by simp
  have aligned: "\<forall>(i, e, v) \<in> set evs. ?rs ! i = v"
    using writes_aligned [OF once inside'] by blast
  have r: "run (map (\<lambda>(i, e, v). (?b + i, e, v)) evs) ?h1 =
             (if ps = [] then Inr ?h1
              else consume callback (AllOk ?rs)
                     (?h1\<lparr>aggs := (aggs ?h1)[?a := \<lparr>results = ?rs, pending = 0\<rparr>]\<rparr>))"
  proof (cases "ps = []")
    case True
    with len show ?thesis by simp
  next
    case False
    with len have ne: "evs \<noteq> []" by auto
    have items: "\<forall>(i, e, v) \<in> set evs. \<not> truthy e \<and> ?b + i < length (calls ?h1) \<and>
                   call_cb (calls ?h1 ! (?b + i)) = ItemCb ?a i callback"
      using succeed inside by (auto simp: nth_append nth_enumerate_eq)
    from run_items_success [OF ne items] len False show ?thesis
      by (simp add: all_init_def)
  qed
  from launch ops lrs aligned r show ?thesis
    by (intro exI [of _ ?h1] exI [of _ ?rs] conjI)
qed

text \<open>
  The three indices \<open>0, 1, 2\<close> of \<open>_getKeys\<close>, completed in the order 2, 0, 1: one reply with
  the keys in the order of the indices. No index: no operation, no reply.
\<close>

theorem fan_out_aligned_witness:
  "(\<exists>h1. hub_all (Some [JNum 0, JNum 1, JNum 2]) Key
            (SameCb (ListenerCb ''http://a.com''
               \<lparr>req_id = JNum 7, req_method = JStr ''cross-storage:getKeys'', req_params = NoParams\<rparr>))
            (init None True Usable) = Inr h1
        \<and> map call_op (calls h1) = [Key (JNum 0), Key (JNum 1), Key (JNum 2)]
        \<and> (case run [(2, JNull, JStr ''z''), (0, JUndefined, JStr ''x''), (1, JNull, JNull)] h1
            of Inl e \<Rightarrow> None | Inr h2 \<Rightarrow> Some (posted h2))
           = Some [(Control ''cross-storage:ready'', ''*''),
                   (Reply (JNum 7) JUndefined (JArr [JStr ''x'', JNull, JStr ''z'']),
                    ''http://a.com'')])
   \<and> (\<exists>h1. hub_all (Some []) Key
            (SameCb (ListenerCb ''http://a.com''
               \<lparr>req_id = JNum 7, req_method = JStr ''cross-storage:getKeys'', req_params = NoParams\<rparr>))
            (init None True Usable) = Inr h1
        \<and> calls h1 = []
        \<and> run [] h1 = Inr h1
        \<and> posted h1 = [(Control ''cross-storage:ready'', ''*'')])"
proof -
  let ?r = "\<lparr>req_id = JNum 7, req_method = JStr ''cross-storage:getKeys'', req_params = NoParams\<rparr>"
  let ?c = "SameCb (ListenerCb ''http://a.com'' ?r)"
  let ?h = "init None True Usable"
  let ?ps = "[JNum 0, JNum 1, JNum 2]"
  let ?evs = "[(2::nat, JNull, JStr ''z''), (0, JUndefined, JStr ''x''), (1, JNull, JNull)]"
  have none: "length (calls ?h) = 0" and p0: "posted ?h = [(Control ''cross-storage:ready'', ''*'')]"
    and c0: "calls ?h = []"
    by (simp_all add: init_def)
  have once: "distinct (map fst ?evs)" by simp
  have every: "fst ` set ?evs = {..<length ?ps}" by auto
  have succeed: "\<forall>(i, e, v) \<in> set ?evs. \<not> truthy e" by simp
  from fan_out_aligned [where callback = ?c and h = ?h and ps = ?ps, OF once every succeed, of Key]
  obtain h1 rs where l: "hub_all (Some ?ps) Key ?c ?h = Inr h1"
    and ops: "map call_op (drop (length (calls ?h)) (calls h1)) = map Key ?ps"
    and len: "length rs = length ?ps"
    and aligned: "\<forall>(i, e, v) \<in> set ?evs. rs ! i = v"
    and r: "run (map (\<lambda>(i, e, v). (length (calls ?h) + i, e, v)) ?evs) h1 =
             (if ?ps = [] then Inr h1
              else consume ?c (AllOk rs)
                     (h1\<lparr>aggs := (aggs h1)[length (aggs ?h) := \<lparr>results = rs, pending = 0\<rparr>]\<rparr>))"
    by (elim exE conjE)
  from l have p1: "posted h1 = posted ?h" by (auto simp: hub_all_eq)
  from len have "rs = [rs ! 0, rs ! Suc 0, rs ! Suc (Suc 0)]"
    by (cases rs; cases "tl rs"; cases "tl (tl rs)") auto
  with aligned have rs: "rs = [JStr ''x'', JNull, JStr ''z'']" by (simp add: numeral_2_eq_2)
  from ops none have 1: "map call_op (calls h1) = [Key (JNum 0), Key (JNum 1), Key (JNum 2)]"
    by simp
  from r none rs p1 p0 have 2: "(case run ?evs h1 of Inl e \<Rightarrow> None | Inr h2 \<Rightarrow> Some (posted h2))
           = Some [(Control ''cross-storage:ready'', ''*''),
                   (Reply (JNum 7) JUndefined (JArr [JStr ''x'', JNull, JStr ''z'']), ''http://a.com'')]"
    by (simp add: postMessage_def targetOrigin_def)
  have e0: "distinct (map fst ([] :: (nat \<times> jsval \<times> jsval) list))" by simp
  have e1: "fst ` set ([] :: (nat \<times> jsval \<times> jsval) list) = {..<length ([] :: jsval list)}" by simp
  have e2: "\<forall>(i, e, v) \<in> set ([] :: (nat \<times> jsval \<times> jsval) list). \<not> truthy e" by simp
  from fan_out_aligned [where callback = ?c and h = ?h and ps = "[]", OF e0 e1 e2, of Key]
  obtain h1' where l': "hub_all (Some []) Key ?c ?h = Inr h1'"
    and ops': "map call_op (drop (length (calls ?h)) (calls h1')) = map Key []"
    and r': "run (map (\<lambda>(i, e, v). (length (calls ?h) + i, e, v)) []) h1' =
             (if ([] :: jsval list) = [] then Inr h1' else Inr h1')"
    by (elim exE conjE) simp
  from ops' none have 3: "calls h1' = []" by simp
  from r' have 4: "run [] h1' = Inr h1'" by simp
  from l' p0 have 5: "posted h1' = [(Control ''cross-storage:ready'', ''*'')]"
    by (auto simp: hub_all_eq)
  from l 1 2 have A: "\<exists>h1. hub_all (Some ?ps) Key ?c ?h = Inr h1
        \<and> map call_op (calls h1) = [Key (JNum 0), Key (JNum 1), Key (JNum 2)]
        \<and> (case run ?evs h1 of Inl e \<Rightarrow> None | Inr h2 \<Rightarrow> Some (posted h2))
           = Some [(Control ''cross-storage:ready'', ''*''),
                   (Reply (JNum 7) JUndefined (JArr [JStr ''x'', JNull, JStr ''z'']), ''http://a.com'')]"
    by (intro exI [of _ h1] conjI)
  from l' 3 4 5 have B: "\<exists>h1. hub_all (Some []) Key ?c ?h = Inr h1 \<and> calls h1 = []
        \<and> run [] h1 = Inr h1 \<and> posted h1 = [(Control ''cross-storage:ready'', ''*'')]"
    by (intro exI [of _ h1'] conjI)
  from A B show ?thesis by (intro conjI)
qed

lemma two_elements: "length rs = Suc (Suc 0) \<Longrightarrow> rs = [rs ! 0, rs ! Suc 0]"
  by (cases rs; cases "tl rs") auto

text \<open>
  Claim C6. A permitted \<open>get\<close> request for the keys \<open>ks\<close> (at least one) asks the adapter
  for \<open>getItem\<close> of each key, in order. When the adapter has completed each of them
  once, successfully, in any order, exactly one reply has been posted; its result is, for
  one key, the value the adapter gave, or \<open>null\<close> when that value is falsy, and for more
  keys the array of the values in the order of the keys, whatever they are.
\<close>

theorem get_reply_shape:
  assumes data: "msg_data m \<noteq> ''cross-storage:poll''" "msg_data m \<noteq> ''cross-storage:ready''"
        "parse (msg_data m) = Parsed r"
      and meth: "req_method r = JStr ''cross-storage:get''"
      and keys: "req_params r = Params k v (Some ks)" "ks \<noteq> []"
      and perm: "permitted (permissions h) (origin_of m) ''get''"
      and once: "distinct (map fst evs)"
      and every: "fst ` set evs = {..<length ks}"
      and succeed: "\<forall>(i, e, v) \<in> set evs. \<not> truthy e"
  shows "\<exists>h1 h2 rs.
           listener parse m h = Inr h1
         \<and> map call_op (calls h1) = map call_op (calls h) @ map GetItem ks
         \<and> run (map (\<lambda>(i, e, v). (length (calls h) + i, e, v)) evs) h1 = Inr h2
         \<and> length rs = length ks \<and> (\<forall>(i, e, v) \<in> set evs. rs ! i = v)
         \<and> posted h2 = posted h @
             [(Reply (req_id r) JUndefined
                 (if length ks = 1 then (if truthy (rs ! 0) then rs ! 0 else JNull) else JArr rs),
               targetOrigin (origin_of m))]"
proof -
  let ?c = "GetCb (ListenerCb (origin_of m) r)"
  let ?a = "length (aggs h)"
  let ?b = "length (calls h)"
  let ?h1 = "h\<lparr>aggs := aggs h @ [all_init ks],
               calls := calls h @ map (\<lambda>(j, p). \<lparr>call_op = GetItem p, call_cb = ItemCb ?a j ?c\<rparr>)
                                      (enumerate 0 ks)\<rparr>"
  let ?rs = "foldl (\<lambda>rs (i, e, v). set_index rs i v) (replicate (length ks) JUndefined) evs"
  let ?h' = "?h1\<lparr>aggs := (aggs ?h1)[?a := \<lparr>results = ?rs, pending = 0\<rparr>]\<rparr>"
  have l: "listener parse m h = Inr ?h1"
    using perm keys
    by (simp add: listener_request [where parse = parse and m = m, OF data meth split_names(1)]
          dispatch_names hub_get_def hub_all_eq)
  have ops: "map call_op (calls ?h1) = map call_op (calls h) @ map GetItem ks"
    by (simp add: o_def split_def map_enumerate_snd)
  from once have "length evs = card (fst ` set evs)"
    by (metis distinct_card length_map set_map)
  with every have len: "length evs = length ks" by simp
  with keys have ne: "evs \<noteq> []" by auto
  have inside: "i < length ks" if "(i, e, v) \<in> set evs" for i e v
  proof -
    from that have "i \<in> fst ` set evs" by force
    with every show ?thesis by simp
  qed
  have items: "\<forall>(i, e, v) \<in> set evs. \<not> truthy e \<and> ?b + i < length (calls ?h1) \<and>
                 call_cb (calls ?h1 ! (?b + i)) = ItemCb ?a i ?c"
    using succeed inside by (auto simp: nth_append nth_enumerate_eq)
  have r: "run (map (\<lambda>(i, e, v). (?b + i, e, v)) evs) ?h1 = consume ?c (AllOk ?rs) ?h'"
    using run_items_success [OF ne items, of ] len
    by (simp add: all_init_def)
  have inside': "\<forall>(i, e, v) \<in> set evs. i < length (replicate (length ks) JUndefined)"
    using inside by auto
  have lrs: "length ?rs = length ks"
    using writes_length [OF inside'] by simp
  have aligned: "\<forall>(i, e, v) \<in> set evs. ?rs ! i = v"
    using writes_aligned [OF once inside'] by blast
  from lrs keys have "?rs \<noteq> []" by auto
  from consume_get_ok [OF this] r lrs
  have "\<exists>h2. run (map (\<lambda>(i, e, v). (?b + i, e, v)) evs) ?h1 = Inr h2 \<and>
          posted h2 = posted h @
             [(Reply (req_id r) JUndefined
                 (if length ks = 1 then (if truthy (?rs ! 0) then ?rs ! 0 else JNull) else JArr ?rs),
               targetOrigin (origin_of m))]"
    by simp
  with l ops lrs aligned show ?thesis by blast
qed

text \<open>
  The keys \<open>a\<close> and \<open>b\<close>, both unset: the adapter gives \<open>null\<close> for each (here for \<open>b\<close>
  first), and the reply carries \<open>[null, null]\<close>.
\<close>

theorem get_reply_shape_witness:
  "\<exists>h1 h2.
     listener (\<lambda>data. Parsed \<lparr>req_id = JNum 7, req_method = JStr ''cross-storage:get'',
                                req_params = Params JUndefined JUndefined (Some [JStr ''a'', JStr ''b''])\<rparr>)
       \<lparr>msg_origin = ''http://a.com'', msg_data = ''{...}''\<rparr>
       (init (Some [Entry (RegExp (\<lambda>s. s = ''http://a.com'')) (JArr [JStr ''get''])]) False Usable)
       = Inr h1
   \<and> map call_op (calls h1) = [GetItem (JStr ''a''), GetItem (JStr ''b'')]
   \<and> run [(1, JNull, JNull), (0, JNull, JNull)] h1 = Inr h2
   \<and> posted h2 =
        [(Control ''cross-storage:ready'', ''*''),
         (Reply (JNum 7) JUndefined (JArr [JNull, JNull]), ''http://a.com'')]"
proof -
  let ?r = "\<lparr>req_id = JNum 7, req_method = JStr ''cross-storage:get'',
             req_params = Params JUndefined JUndefined (Some [JStr ''a'', JStr ''b''])\<rparr>"
  let ?parse = "\<lambda>data :: string. Parsed ?r"
  let ?m = "\<lparr>msg_origin = ''http://a.com'', msg_data = ''{...}''\<rparr>"
  let ?h = "init (Some [Entry (RegExp (\<lambda>s. s = ''http://a.com'')) (JArr [JStr ''get''])]) False Usable"
  let ?evs = "[(1::nat, JNull, JNull), (0, JNull, JNull)]"
  have data: "msg_data ?m \<noteq> ''cross-storage:poll''" "msg_data ?m \<noteq> ''cross-storage:ready''"
    "?parse (msg_data ?m) = Parsed ?r" by simp_all
  have meth: "req_method ?r = JStr ''cross-storage:get''" by simp
  have keys: "req_params ?r = Params JUndefined JUndefined (Some [JStr ''a'', JStr ''b''])"
    "[JStr ''a'', JStr ''b''] \<noteq> []" by simp_all
  have perm: "permitted (permissions ?h) (origin_of ?m) ''get''"
    by (simp add: init_def origin_of_def permitted_def available_def)
  have once: "distinct (map fst ?evs)" by simp
  have every: "fst ` set ?evs = {..<length [JStr ''a'', JStr ''b'']}" by auto
  have succeed: "\<forall>(i, e, v) \<in> set ?evs. \<not> truthy e" by simp
  from get_reply_shape [where parse = ?parse and m = ?m and h = ?h and evs = ?evs,
      OF data meth keys perm once every succeed]
  obtain h1 h2 rs where l: "listener ?parse ?m ?h = Inr h1"
    and ops: "map call_op (calls h1) = map call_op (calls ?h) @ map GetItem [JStr ''a'', JStr ''b'']"
    and r: "run (map (\<lambda>(i, e, v). (length (calls ?h) + i, e, v)) ?evs) h1 = Inr h2"
    and len: "length rs = length [JStr ''a'', JStr ''b'']"
    and aligned: "\<forall>(i, e, v) \<in> set ?evs. rs ! i = v"
    and post: "posted h2 = posted ?h @
             [(Reply (req_id ?r) JUndefined
                 (if length [JStr ''a'', JStr ''b''] = 1
                  then (if truthy (rs ! 0) then rs ! 0 else JNull) else JArr rs),
               targetOrigin (origin_of ?m))]"
    by (elim exE conjE)
  from len have "rs = [rs ! 0, rs ! Suc 0]" by (intro two_elements) simp
  with aligned have rs: "rs = [JNull, JNull]" by simp
  from ops have 1: "map call_op (calls h1) = [GetItem (JStr ''a''), GetItem (JStr ''b'')]"
    by (simp add: init_def)
  from r have 2: "run ?evs h1 = Inr h2" by (simp add: init_def)
  from post rs have 3: "posted h2 =
        [(Control ''cross-storage:ready'', ''*''),
         (Reply (JNum 7) JUndefined (JArr [JNull, JNull]), ''http://a.com'')]"
    by (simp add: init_def targetOrigin_def origin_of_def)
  from l 1 2 3 show ?thesis by (intro exI [of _ h1] exI [of _ h2] conjI)
qed

section \<open>Writing and reading back\<close>

text \<open>
  A permitted \<open>set\<close> of \<open>v\<close> under \<open>k\<close>, served by the store, then a permitted \<open>get\<close> of \<open>k\<close>,
  served by the store: the store holds \<open>v\<close> under \<open>k\<close>, and two replies were posted.
\<close>

lemma round_trip_run:
  assumes set_data: "msg_data m1 \<noteq> ''cross-storage:poll''" "msg_data m1 \<noteq> ''cross-storage:ready''"
        "parse (msg_data m1) = Parsed r1"
      and set_method: "req_method r1 = JStr ''cross-storage:set''"
      and set_params: "req_params r1 = Params k v ks1"
      and set_perm: "permitted (permissions h) (origin_of m1) ''set''"
      and get_data: "msg_data m2 \<noteq> ''cross-storage:poll''" "msg_data m2 \<noteq> ''cross-storage:ready''"
        "parse (msg_data m2) = Parsed r2"
      and get_method: "req_method r2 = JStr ''cross-storage:get''"
      and get_params: "req_params r2 = Params k2 v2 (Some [k])"
      and get_perm: "permitted (permissions h) (origin_of m2) ''get''"
      and listening: "installed h"
  shows "\<exists>h'.
           drive parse [Receive m1, Serve (length (calls h)), Receive m2, Serve (Suc (length (calls h)))]
             (h, s) = Inr (h', AList.update k v s)
         \<and> map call_op (calls h') = map call_op (calls h) @ [SetItem k v, GetItem k]
         \<and> posted h' = posted h @
              [(Reply (req_id r1) JUndefined JUndefined, targetOrigin (origin_of m1)),
               (Reply (req_id r2) JUndefined (if truthy v then v else JNull),
                targetOrigin (origin_of m2))]"
proof -
  let ?b = "length (calls h)"
  let ?h1 = "adapter_call (SetItem k v) (DirectCb (ListenerCb (origin_of m1) r1)) h"
  let ?h2 = "postMessage (origin_of m1) r1 JUndefined JUndefined ?h1"
  let ?s1 = "AList.update k v s"
  have l1: "listener parse m1 h = Inr ?h1"
    using set_perm set_params
    by (simp add: listener_request [where parse = parse and m = m1, OF set_data set_method split_names(2)]
          dispatch_names hub_set_def)
  have s1: "serve ?b (?h1, s) = Inr (?h2, ?s1)"
    by (simp add: serve_def adapter_call_def complete_def)
  have perm2: "permitted (permissions ?h2) (origin_of m2) ''get''"
    using get_perm by (simp add: adapter_call_def postMessage_def)
  obtain h3 where l2: "listener parse m2 ?h2 = Inr h3"
    and h3: "h3 = ?h2\<lparr>aggs := aggs ?h2 @ [all_init [k]],
                calls := calls ?h2 @ [\<lparr>call_op = GetItem k,
                   call_cb = ItemCb (length (aggs ?h2)) 0 (GetCb (ListenerCb (origin_of m2) r2))\<rparr>]\<rparr>"
    using perm2 get_params
    by (simp add: listener_request [where parse = parse and m = m2, OF get_data get_method split_names(1)]
          dispatch_names hub_get_def hub_all_eq)
  let ?h4 = "postMessage (origin_of m2) r2 JUndefined (if truthy v then v else JNull)
               (h3\<lparr>aggs := (aggs h3)[length (aggs h) := \<lparr>results = [v], pending = 0\<rparr>]\<rparr>)"
  have s2: "serve (Suc ?b) (h3, ?s1) = Inr (?h4, ?s1)"
    by (simp add: h3 serve_def adapter_call_def postMessage_def complete_def update_conv'
          all_item_cb_def all_init_def set_index_def Let_def nth_append)
  have "drive parse [Receive m1, Serve ?b, Receive m2, Serve (Suc ?b)] (h, s) = Inr (?h4, ?s1)"
    using listening l1 s1 l2 s2 by (simp add: adapter_call_def postMessage_def)
  moreover have "map call_op (calls ?h4) = map call_op (calls h) @ [SetItem k v, GetItem k]"
    by (simp add: h3 adapter_call_def postMessage_def)
  moreover have "posted ?h4 = posted h @
              [(Reply (req_id r1) JUndefined JUndefined, targetOrigin (origin_of m1)),
               (Reply (req_id r2) JUndefined (if truthy v then v else JNull),
                targetOrigin (origin_of m2))]"
    by (simp add: h3 adapter_call_def postMessage_def)
  ultimately show ?thesis by blast
qed

lemma example_permits:
  "permitted (permissions (init (Some [Entry (RegExp (\<lambda>s. s = ''http://a.com''))
                                          (JArr [JStr ''get'', JStr ''set''])]) False Usable))
             (origin_of \<lparr>msg_origin = ''http://a.com'', msg_data = d\<rparr>) ''set''"
  "permitted (permissions (init (Some [Entry (RegExp (\<lambda>s. s = ''http://a.com''))
                                          (JArr [JStr ''get'', JStr ''set''])]) False Usable))
             (origin_of \<lparr>msg_origin = ''http://a.com'', msg_data = d\<rparr>) ''get''"
  by (simp_all add: init_def origin_of_def permitted_def available_def)

text \<open>
  Claim C8. \<open>set\<close> with \<open>{key: k, value: v}\<close> followed by \<open>get\<close> with \<open>{keys: [k]}\<close>, over a
  store that keeps what it is given: the reply to \<open>get\<close> carries \<open>v\<close> when \<open>v\<close> is truthy,
  and \<open>null\<close> when \<open>v\<close> is falsy (the empty string, \<open>0\<close>, \<open>false\<close>, \<open>null\<close>, or no value).
\<close>

theorem set_then_get:
  assumes set_data: "msg_data m1 \<noteq> ''cross-storage:poll''" "msg_data m1 \<noteq> ''cross-storage:ready''"
        "parse (msg_data m1) = Parsed r1"
      and set_method: "req_method r1 = JStr ''cross-storage:set''"
      and set_params: "req_params r1 = Params k v ks1"
      and set_perm: "permitted (permissions h) (origin_of m1) ''set''"
      and get_data: "msg_data m2 \<noteq> ''cross-storage:poll''" "msg_data m2 \<noteq> ''cross-storage:ready''"
        "parse (msg_data m2) = Parsed r2"
      and get_method: "req_method r2 = JStr ''cross-storage:get''"
      and get_params: "req_params r2 = Params k2 v2 (Some [k])"
      and get_perm: "permitted (permissions h) (origin_of m2) ''get''"
      and listening: "installed h"
  shows "\<exists>h' s'.
           drive parse [Receive m1, Serve (length (calls h)), Receive m2, Serve (Suc (length (calls h)))]
             (h, s) = Inr (h', s')
         \<and> map call_op (calls h') = map call_op (calls h) @ [SetItem k v, GetItem k]
         \<and> posted h' = posted h @
              [(Reply (req_id r1) JUndefined JUndefined, targetOrigin (origin_of m1)),
               (Reply (req_id r2) JUndefined (if truthy v then v else JNull),
                targetOrigin (origin_of m2))]"
  using round_trip_run [where parse = parse, OF assms] by blast

text \<open>The value \<open>"v"\<close> written under \<open>"a"\<close> comes back.\<close>

theorem set_then_get_witness:
  "truthy (JStr ''v'') \<and>
   (case drive (\<lambda>d. if d = ''set'' then Parsed \<lparr>req_id = JNum 1, req_method = JStr ''cross-storage:set'',
                                           req_params = Params (JStr ''a'') (JStr ''v'') None\<rparr>
                           else Parsed \<lparr>req_id = JNum 2, req_method = JStr ''cross-storage:get'',
                                           req_params = Params JUndefined JUndefined (Some [JStr ''a''])\<rparr>)
           [Receive \<lparr>msg_origin = ''http://a.com'', msg_data = ''set''\<rparr>, Serve 0,
            Receive \<lparr>msg_origin = ''http://a.com'', msg_data = ''get''\<rparr>, Serve 1]
           (init (Some [Entry (RegExp (\<lambda>s. s = ''http://a.com''))
                          (JArr [JStr ''get'', JStr ''set''])]) False Usable, [])
    of Inl e \<Rightarrow> None | Inr (h', s') \<Rightarrow> Some (posted h'))
   = Some [(Control ''cross-storage:ready'', ''*''),
           (Reply (JNum 1) JUndefined JUndefined, ''http://a.com''),
           (Reply (JNum 2) JUndefined (JStr ''v''), ''http://a.com'')]"
proof -
  let ?r1 = "\<lparr>req_id = JNum 1, req_method = JStr ''cross-storage:set'',
              req_params = Params (JStr ''a'') (JStr ''v'') None\<rparr>"
  let ?r2 = "\<lparr>req_id = JNum 2, req_method = JStr ''cross-storage:get'',
              req_params = Params JUndefined JUndefined (Some [JStr ''a''])\<rparr>"
  let ?parse = "\<lambda>d. if d = ''set'' then Parsed ?r1 else Parsed ?r2"
  let ?m1 = "\<lparr>msg_origin = ''http://a.com'', msg_data = ''set''\<rparr>"
  let ?m2 = "\<lparr>msg_origin = ''http://a.com'', msg_data = ''get''\<rparr>"
  let ?h = "init (Some [Entry (RegExp (\<lambda>s. s = ''http://a.com''))
                          (JArr [JStr ''get'', JStr ''set''])]) False Usable"
  have d1: "msg_data ?m1 \<noteq> ''cross-storage:poll''" "msg_data ?m1 \<noteq> ''cross-storage:ready''"
    "?parse (msg_data ?m1) = Parsed ?r1" by simp_all
  have d2: "msg_data ?m2 \<noteq> ''cross-storage:poll''" "msg_data ?m2 \<noteq> ''cross-storage:ready''"
    "?parse (msg_data ?m2) = Parsed ?r2" by simp_all
  have me1: "req_method ?r1 = JStr ''cross-storage:set''" and me2: "req_method ?r2 = JStr ''cross-storage:get''"
    by simp_all
  have p1: "req_params ?r1 = Params (JStr ''a'') (JStr ''v'') None"
    and p2: "req_params ?r2 = Params JUndefined JUndefined (Some [JStr ''a''])" by simp_all
  have inst: "installed ?h" by (simp add: init_def)
  have len: "length (calls ?h) = 0" by (simp add: init_def)
  from set_then_get [where parse = ?parse and ?s = "[]", OF d1 me1 p1 example_permits(1) d2 me2 p2 example_permits(2) inst]
  obtain h' s' where
    "drive ?parse [Receive ?m1, Serve (length (calls ?h)), Receive ?m2, Serve (Suc (length (calls ?h)))]
       (?h, []) = Inr (h', s')"
    and "posted h' = posted ?h @
              [(Reply (req_id ?r1) JUndefined JUndefined, targetOrigin (origin_of ?m1)),
               (Reply (req_id ?r2) JUndefined (if truthy (JStr ''v'') then JStr ''v'' else JNull),
                targetOrigin (origin_of ?m2))]"
    by (elim exE conjE)
  then show ?thesis
    by (simp add: len) (simp add: init_def targetOrigin_def origin_of_def)
qed

text \<open>
  The empty string written under \<open>"a"\<close> is kept by the store, and the reply to \<open>get\<close>
  carries \<open>null\<close>.
\<close>

theorem set_then_get_empty_string:
  "(case drive (\<lambda>d. if d = ''set'' then Parsed \<lparr>req_id = JNum 1, req_method = JStr ''cross-storage:set'',
                                           req_params = Params (JStr ''a'') (JStr '''') None\<rparr>
                           else Parsed \<lparr>req_id = JNum 2, req_method = JStr ''cross-storage:get'',
                                           req_params = Params JUndefined JUndefined (Some [JStr ''a''])\<rparr>)
           [Receive \<lparr>msg_origin = ''http://a.com'', msg_data = ''set''\<rparr>, Serve 0,
            Receive \<lparr>msg_origin = ''http://a.com'', msg_data = ''get''\<rparr>, Serve 1]
           (init (Some [Entry (RegExp (\<lambda>s. s = ''http://a.com''))
                          (JArr [JStr ''get'', JStr ''set''])]) False Usable, [])
    of Inl e \<Rightarrow> None | Inr (h', s') \<Rightarrow> Some (posted h', s'))
   = Some ([(Control ''cross-storage:ready'', ''*''),
            (Reply (JNum 1) JUndefined JUndefined, ''http://a.com''),
            (Reply (JNum 2) JUndefined JNull, ''http://a.com'')],
           [(JStr ''a'', JStr '''')])"
proof -
  let ?r1 = "\<lparr>req_id = JNum 1, req_method = JStr ''cross-storage:set'',
              req_params = Params (JStr ''a'') (JStr '''') None\<rparr>"
  let ?r2 = "\<lparr>req_id = JNum 2, req_method = JStr ''cross-storage:get'',
              req_params = Params JUndefined JUndefined (Some [JStr ''a''])\<rparr>"
  let ?parse = "\<lambda>d. if d = ''set'' then Parsed ?r1 else Parsed ?r2"
  let ?m1 = "\<lparr>msg_origin = ''http://a.com'', msg_data = ''set''\<rparr>"
  let ?m2 = "\<lparr>msg_origin = ''http://a.com'', msg_data = ''get''\<rparr>"
  let ?h = "init (Some [Entry (RegExp (\<lambda>s. s = ''http://a.com''))
                          (JArr [JStr ''get'', JStr ''set''])]) False Usable"
  have d1: "msg_data ?m1 \<noteq> ''cross-storage:poll''" "msg_data ?m1 \<noteq> ''cross-storage:ready''"
    "?parse (msg_data ?m1) = Parsed ?r1" by simp_all
  have d2: "msg_data ?m2 \<noteq> ''cross-storage:poll''" "msg_data ?m2 \<noteq> ''cross-storage:ready''"
    "?parse (msg_data ?m2) = Parsed ?r2" by simp_all
  have me1: "req_method ?r1 = JStr ''cross-storage:set''" and me2: "req_method ?r2 = JStr ''cross-storage:get''"
    by simp_all
  have p1: "req_params ?r1 = Params (JStr ''a'') (JStr '''') None"
    and p2: "req_params ?r2 = Params JUndefined JUndefined (Some [JStr ''a''])" by simp_all
  have inst: "installed ?h" by (simp add: init_def)
  have len: "length (calls ?h) = 0" by (simp add: init_def)
  from round_trip_run [where parse = ?parse and ?s = "[]", OF d1 me1 p1 example_permits(1) d2 me2 p2 example_permits(2) inst]
  obtain h' where
    "drive ?parse [Receive ?m1, Serve (length (calls ?h)), Receive ?m2, Serve (Suc (length (calls ?h)))]
       (?h, []) = Inr (h', AList.update (JStr ''a'') (JStr '''') [])"
    and "posted h' = posted ?h @
              [(Reply (req_id ?r1) JUndefined JUndefined, targetOrigin (origin_of ?m1)),
               (Reply (req_id ?r2) JUndefined (if truthy (JStr '''') then JStr '''' else JNull),
                targetOrigin (origin_of ?m2))]"
    by (elim exE conjE)
  then show ?thesis
    by (simp add: len) (simp add: init_def targetOrigin_def origin_of_def)
qed

section \<open>Failures at the dispatch step\<close>

lemma permitted_recognized:
  "permitted perms origin method \<Longrightarrow>
   method \<in> {''get'', ''set'', ''del'', ''clear'', ''getKeys''}"
  unfolding permitted_def recognized_names [symmetric] by (simp split: if_splits)

lemma hub_all_none: "hub_all None method callback h = Inl TypeError"
  by (simp add: hub_all_def)

lemma failure_becomes_reply:
  assumes "truthy err"
  shows "invoke (DirectCb (ListenerCb origin r)) err value h =
           Inr (postMessage origin r (message_of err) JUndefined h)"
    and "invoke (LengthCb (ListenerCb origin r)) err value h =
           Inr (postMessage origin r (message_of err) JUndefined h)"
    and "invoke (ItemCb a i (GetCb (ListenerCb origin r))) err value h =
           Inr (postMessage origin r (message_of err) JUndefined h)"
    and "invoke (ItemCb a i (DelCb (ListenerCb origin r))) err value h =
           Inr (postMessage origin r (message_of err) JUndefined h)"
    and "invoke (ItemCb a i (SameCb (ListenerCb origin r))) err value h =
           Inr (postMessage origin r (message_of err) JUndefined h)"
  using assms by (simp_all add: all_item_cb_def)

text \<open>
  What a dispatch does with \<open>params\<close>: with \<open>params\<close> missing for \<open>set\<close>, or \<open>params\<close> or
  \<open>params.keys\<close> missing for \<open>get\<close> and \<open>del\<close>, the handler raises a \<open>TypeError\<close>. Otherwise
  the listener returns normally and posts nothing itself, and a failure the adapter
  reports to a callback this dispatch handed to it becomes one reply that carries the
  failure's \<open>message\<close> as its error and no result. (\<open>failure_becomes_reply\<close> says the same
  of every callback the hub ever hands to the adapter.)
\<close>

lemma dispatch_failures:
  assumes data: "msg_data m \<noteq> ''cross-storage:poll''" "msg_data m \<noteq> ''cross-storage:ready''"
        "parse (msg_data m) = Parsed r"
      and meth: "req_method r = JStr s" "second (js_split s ''cross-storage:'') = Some name"
      and perm: "permitted (permissions h) (origin_of m) name"
  shows "(if name = ''set'' \<and> req_params r = NoParams
             \<or> name \<in> {''get'', ''del''} \<and> (\<forall>k v ks. req_params r \<noteq> Params k v (Some ks))
          then listener parse m h = Inl TypeError
          else \<exists>h'. listener parse m h = Inr h' \<and> posted h' = posted h \<and>
                 (\<forall>c \<in> set (drop (length (calls h)) (calls h')). \<forall>err value h''. truthy err \<longrightarrow>
                    invoke (call_cb c) err value h'' =
                      Inr (postMessage (origin_of m) r (message_of err) JUndefined h'')))"
proof -
  from perm have five: "name \<in> {''get'', ''set'', ''del'', ''clear'', ''getKeys''}"
    by (rule permitted_recognized)
  then have "name \<noteq> []" by auto
  with perm have l: "listener parse m h = dispatch name (req_params r) (ListenerCb (origin_of m) r) h"
    by (simp add: listener_request [where parse = parse and m = m, OF data meth])
  from five consider "name = ''get''" | "name = ''set''" | "name = ''del''" | "name = ''clear''"
    | "name = ''getKeys''" by auto
  then show ?thesis
  proof cases
    case 1
    show ?thesis
    proof (cases "req_params r")
      case NoParams
      with 1 l show ?thesis by (simp add: dispatch_names hub_get_def)
    next
      case (Params k v keys)
      with 1 l show ?thesis
        by (cases keys)
          (auto simp: dispatch_names hub_get_def hub_all_eq hub_all_none failure_becomes_reply
            split_def in_set_enumerate_eq simp del: invoke.simps)
    qed
  next
    case 2
    with l show ?thesis
      by (cases "req_params r")
        (auto simp: dispatch_names hub_set_def adapter_call_def failure_becomes_reply
          simp del: invoke.simps)
  next
    case 3
    show ?thesis
    proof (cases "req_params r")
      case NoParams
      with 3 l show ?thesis by (simp add: dispatch_names hub_del_def)
    next
      case (Params k v keys)
      with 3 l show ?thesis
        by (cases keys)
          (auto simp: dispatch_names hub_del_def hub_all_eq hub_all_none failure_becomes_reply
            split_def in_set_enumerate_eq simp del: invoke.simps)
    qed
  next
    case 4
    with l show ?thesis
      by (auto simp: dispatch_names hub_clear_def adapter_call_def failure_becomes_reply
          simp del: invoke.simps)
  next
    case 5
    with l show ?thesis
      by (auto simp: dispatch_names hub_getKeys_def adapter_call_def failure_becomes_reply
          simp del: invoke.simps)
  qed
qed

text \<open>
  \<open>del\<close> without \<open>keys\<close> raises; \<open>set\<close> of \<open>"v"\<close> under \<open>"a"\<close> asks the adapter for
  \<open>setItem\<close>, and the adapter's failure \<open>quota exceeded\<close> becomes the reply's error.
\<close>

lemma dispatch_failures_example:
  "listener (\<lambda>d. Parsed \<lparr>req_id = JNum 1, req_method = JStr ''cross-storage:del'',
                            req_params = Params JUndefined JUndefined None\<rparr>)
     \<lparr>msg_origin = ''http://a.com'', msg_data = ''del''\<rparr>
     (init (Some [Entry (RegExp (\<lambda>s. s = ''http://a.com''))
                    (JArr [JStr ''del'', JStr ''set''])]) False Usable)
   = Inl TypeError
   \<and> (\<exists>h'. listener (\<lambda>d. Parsed \<lparr>req_id = JNum 2, req_method = JStr ''cross-storage:set'',
                                      req_params = Params (JStr ''a'') (JStr ''v'') None\<rparr>)
               \<lparr>msg_origin = ''http://a.com'', msg_data = ''set''\<rparr>
               (init (Some [Entry (RegExp (\<lambda>s. s = ''http://a.com''))
                              (JArr [JStr ''del'', JStr ''set''])]) False Usable)
             = Inr h'
          \<and> map call_op (calls h') = [SetItem (JStr ''a'') (JStr ''v'')]
          \<and> posted h' = [(Control ''cross-storage:ready'', ''*'')]
          \<and> truthy (JObj [(''message'', JStr ''quota exceeded'')])
          \<and> complete 0 (JObj [(''message'', JStr ''quota exceeded'')]) JUndefined h'
              = Inr (h'\<lparr>posted := [(Control ''cross-storage:ready'', ''*''),
                                     (Reply (JNum 2) (JStr ''quota exceeded'') JUndefined,
                                      ''http://a.com'')]\<rparr>))"
proof -
  let ?h = "init (Some [Entry (RegExp (\<lambda>s. s = ''http://a.com''))
                          (JArr [JStr ''del'', JStr ''set''])]) False Usable"
  let ?r1 = "\<lparr>req_id = JNum 1, req_method = JStr ''cross-storage:del'',
              req_params = Params JUndefined JUndefined None\<rparr>"
  let ?m1 = "\<lparr>msg_origin = ''http://a.com'', msg_data = ''del''\<rparr>"
  let ?r2 = "\<lparr>req_id = JNum 2, req_method = JStr ''cross-storage:set'',
              req_params = Params (JStr ''a'') (JStr ''v'') None\<rparr>"
  let ?m2 = "\<lparr>msg_origin = ''http://a.com'', msg_data = ''set''\<rparr>"
  let ?err = "JObj [(''message'', JStr ''quota exceeded'')]"
  have d1: "msg_data ?m1 \<noteq> ''cross-storage:poll''" "msg_data ?m1 \<noteq> ''cross-storage:ready''"
    "(\<lambda>d. Parsed ?r1) (msg_data ?m1) = Parsed ?r1" by simp_all
  have d2: "msg_data ?m2 \<noteq> ''cross-storage:poll''" "msg_data ?m2 \<noteq> ''cross-storage:ready''"
    "(\<lambda>d. Parsed ?r2) (msg_data ?m2) = Parsed ?r2" by simp_all
  have me1: "req_method ?r1 = JStr ''cross-storage:del''" and me2: "req_method ?r2 = JStr ''cross-storage:set''"
    by simp_all
  have perm1: "permitted (permissions ?h) (origin_of ?m1) ''del''"
    and perm2: "permitted (permissions ?h) (origin_of ?m2) ''set''"
    by (simp_all add: init_def origin_of_def permitted_def available_def)
  have a: "listener (\<lambda>d. Parsed ?r1) ?m1 ?h = Inl TypeError"
    using dispatch_failures [where m = ?m1 and h = ?h, OF d1 me1 split_names(3) perm1]
    by simp
  from dispatch_failures [where m = ?m2 and h = ?h, OF d2 me2 split_names(2) perm2]
  obtain h' where l: "listener (\<lambda>d. Parsed ?r2) ?m2 ?h = Inr h'"
    and p: "posted h' = posted ?h"
    and f: "\<forall>c \<in> set (drop (length (calls ?h)) (calls h')). \<forall>err value h''. truthy err \<longrightarrow>
              invoke (call_cb c) err value h'' =
                Inr (postMessage (origin_of ?m2) ?r2 (message_of err) JUndefined h'')"
    by (simp split: if_splits) (elim exE conjE)
  have "listener (\<lambda>d. Parsed ?r2) ?m2 ?h =
          Inr (adapter_call (SetItem (JStr ''a'') (JStr ''v'')) (DirectCb (ListenerCb (origin_of ?m2) ?r2)) ?h)"
    using perm2
    by (simp add: listener_request [where m = ?m2, OF d2 me2 split_names(2)] dispatch_names hub_set_def)
  with l have h': "h' = adapter_call (SetItem (JStr ''a'') (JStr ''v'')) (DirectCb (ListenerCb (origin_of ?m2) ?r2)) ?h"
    by simp
  then have ops: "map call_op (calls h') = [SetItem (JStr ''a'') (JStr ''v'')]"
    and one: "length (calls h') = 1" and none: "length (calls ?h) = 0"
    by (simp_all add: adapter_call_def init_def)
  from p have p': "posted h' = [(Control ''cross-storage:ready'', ''*'')]"
    by (simp add: init_def)
  have t: "truthy ?err" by simp
  from one none have mem: "calls h' ! 0 \<in> set (drop (length (calls ?h)) (calls h'))"
    by (cases "calls h'") simp_all
  have "invoke (call_cb (calls h' ! 0)) ?err JUndefined h' =
        Inr (postMessage (origin_of ?m2) ?r2 (message_of ?err) JUndefined h')"
    by (rule f [rule_format, OF mem t])
  with one p' have c: "complete 0 ?err JUndefined h' =
      Inr (h'\<lparr>posted := [(Control ''cross-storage:ready'', ''*''),
                           (Reply (JNum 2) (JStr ''quota exceeded'') JUndefined, ''http://a.com'')]\<rparr>)"
    by (simp add: complete_def postMessage_def targetOrigin_def origin_of_def)
  from a l ops p' t c show ?thesis by (intro conjI exI [of _ h'])
qed

text \<open>
  Claim C4. A permitted \<open>get\<close> whose request has no \<open>params\<close> reaches the dispatch step,
  and the \<open>TypeError\<close> of reading \<open>params.keys\<close> leaves the listener: nothing catches it and
  no reply is posted for that request, where the claim has every such failure turned
  into a reply. The hub goes on: the listener stays registered and the next request is
  served.
\<close>

theorem get_without_params_uncaught:
  "listener (\<lambda>d. if d = ''bad''
                  then Parsed \<lparr>req_id = JNum 1, req_method = JStr ''cross-storage:get'',
                                req_params = NoParams\<rparr>
                  else Parsed \<lparr>req_id = JNum 2, req_method = JStr ''cross-storage:get'',
                                req_params = Params JUndefined JUndefined (Some [JStr ''a''])\<rparr>)
     \<lparr>msg_origin = ''http://a.com'', msg_data = ''bad''\<rparr>
     (init (Some [Entry (RegExp (\<lambda>s. s = ''http://a.com''))
                    (JArr [JStr ''get'', JStr ''set''])]) False Usable)
   = Inl TypeError
   \<and> (case drive (\<lambda>d. if d = ''bad''
                  then Parsed \<lparr>req_id = JNum 1, req_method = JStr ''cross-storage:get'',
                                req_params = NoParams\<rparr>
                  else Parsed \<lparr>req_id = JNum 2, req_method = JStr ''cross-storage:get'',
                                req_params = Params JUndefined JUndefined (Some [JStr ''a''])\<rparr>)
            [Receive \<lparr>msg_origin = ''http://a.com'', msg_data = ''bad''\<rparr>,
             Receive \<lparr>msg_origin = ''http://a.com'', msg_data = ''good''\<rparr>,
             Serve 0]
            (init (Some [Entry (RegExp (\<lambda>s. s = ''http://a.com''))
                           (JArr [JStr ''get'', JStr ''set''])]) False Usable, [])
       of Inl e \<Rightarrow> None
        | Inr (h', s') \<Rightarrow> Some (posted h', uncaught h', installed h', map call_op (calls h')))
     = Some ([(Control ''cross-storage:ready'', ''*''),
              (Reply (JNum 2) JUndefined JNull, ''http://a.com'')],
             [TypeError], True, [GetItem (JStr ''a'')])"
proof -
  let ?rb = "\<lparr>req_id = JNum 1, req_method = JStr ''cross-storage:get'', req_params = NoParams\<rparr>"
  let ?rg = "\<lparr>req_id = JNum 2, req_method = JStr ''cross-storage:get'',
              req_params = Params JUndefined JUndefined (Some [JStr ''a''])\<rparr>"
  let ?parse = "\<lambda>d. if d = ''bad'' then Parsed ?rb else Parsed ?rg"
  let ?mb = "\<lparr>msg_origin = ''http://a.com'', msg_data = ''bad''\<rparr>"
  let ?mg = "\<lparr>msg_origin = ''http://a.com'', msg_data = ''good''\<rparr>"
  let ?h = "init (Some [Entry (RegExp (\<lambda>s. s = ''http://a.com''))
                          (JArr [JStr ''get'', JStr ''set''])]) False Usable"
  let ?h' = "?h\<lparr>uncaught := uncaught ?h @ [TypeError]\<rparr>"
  have db: "msg_data ?mb \<noteq> ''cross-storage:poll''" "msg_data ?mb \<noteq> ''cross-storage:ready''"
    "?parse (msg_data ?mb) = Parsed ?rb" by simp_all
  have dg: "msg_data ?mg \<noteq> ''cross-storage:poll''" "msg_data ?mg \<noteq> ''cross-storage:ready''"
    "?parse (msg_data ?mg) = Parsed ?rg" by simp_all
  have mb: "req_method ?rb = JStr ''cross-storage:get''" and mg: "req_method ?rg = JStr ''cross-storage:get''"
    by simp_all
  have perm: "permitted (permissions ?h) (origin_of ?mb) ''get''"
    by (rule example_permits(2))
  have perm': "permitted (permissions ?h') (origin_of ?mg) ''get''"
    using example_permits(2) [of "''good''"] by simp
  have inst: "installed ?h" "installed ?h'" by (simp_all add: init_def)
  have bad: "listener ?parse ?mb ?h = Inl TypeError"
    using perm
    by (simp add: listener_request [where parse = ?parse and m = ?mb, OF db mb split_names(1)]
          dispatch_names hub_get_def)
  have good: "listener ?parse ?mg ?h' =
        Inr (?h'\<lparr>aggs := aggs ?h' @ [all_init [JStr ''a'']],
                 calls := calls ?h' @ [\<lparr>call_op = GetItem (JStr ''a''),
                    call_cb = ItemCb (length (aggs ?h')) 0 (GetCb (ListenerCb (origin_of ?mg) ?rg))\<rparr>]\<rparr>)"
    using perm'
    by (simp add: listener_request [where parse = ?parse and m = ?mg, OF dg mg split_names(1)]
          dispatch_names hub_get_def hub_all_eq)
  have "(case drive ?parse [Receive ?mb, Receive ?mg, Serve 0] (?h, [])
       of Inl e \<Rightarrow> None
        | Inr (h', s') \<Rightarrow> Some (posted h', uncaught h', installed h', map call_op (calls h')))
     = Some ([(Control ''cross-storage:ready'', ''*''),
              (Reply (JNum 2) JUndefined JNull, ''http://a.com'')],
             [TypeError], True, [GetItem (JStr ''a'')])"
    using inst bad good
    by (simp add: serve_def complete_def all_item_cb_def all_init_def set_index_def
          postMessage_def targetOrigin_def origin_of_def init_def)
  with bad show ?thesis by (intro conjI)
qed

section \<open>What the dynamic dispatch can reach\<close>

lemma handle_not_internal: "handle hnd params callback h \<noteq> Inl (Internal f)"
  by (cases hnd; cases params)
    (auto simp: hub_set_def hub_get_def hub_del_def hub_clear_def hub_getKeys_def hub_all_def
      split: option.splits)

lemma member_of_recognized:
  assumes "method \<in> {''get'', ''set'', ''del'', ''clear'', ''getKeys''}"
  shows "\<exists>hnd. hub_member (''_'' @ method) = Some (Handler hnd) \<and> dispatch method = handle hnd"
proof -
  from assms consider "method = ''get''" | "method = ''set''" | "method = ''del''"
    | "method = ''clear''" | "method = ''getKeys''" by auto
  then show ?thesis
    by cases (simp_all add: hub_member_def dispatch_names)
qed

lemma listener_cases:
  "listener parse m h = Inr h
   \<or> listener parse m h = Inr (post_control ''cross-storage:ready'' (msg_origin m) h)
   \<or> (\<exists>r name. \<not> permitted (permissions h) (origin_of m) name \<and>
         listener parse m h =
           Inr (postMessage (origin_of m) r (JStr (''Invalid permissions for '' @ name)) JUndefined h))
   \<or> (\<exists>r name. permitted (permissions h) (origin_of m) name \<and>
         listener parse m h = dispatch name (req_params r) (ListenerCb (origin_of m) r) h)"
  unfolding listener_def Let_def
  by (auto split: parsed.splits jsval.splits option.splits)

text \<open>
  Claim C10. A method name that \<open>permitted\<close> accepts is one of the five recognized names,
  and \<open>CrossStorageHub['_' + method]\<close> is then the handler of that name. Every run of the
  listener either ignores the message, answers a poll, posts a permission error for a
  name \<open>permitted\<close> rejected, or calls the handler of a name \<open>permitted\<close> accepted; so for
  no message does the dispatch reach another member of the hub object.
\<close>

theorem dispatch_confined:
  "(permitted perms origin method \<longrightarrow>
      method \<in> {''get'', ''set'', ''del'', ''clear'', ''getKeys''} \<and>
      (\<exists>hnd. hub_member (''_'' @ method) = Some (Handler hnd) \<and> dispatch method = handle hnd))
   \<and> (listener parse m h = Inr h
      \<or> listener parse m h = Inr (post_control ''cross-storage:ready'' (msg_origin m) h)
      \<or> (\<exists>r name. \<not> permitted (permissions h) (origin_of m) name \<and>
            listener parse m h =
              Inr (postMessage (origin_of m) r (JStr (''Invalid permissions for '' @ name)) JUndefined h))
      \<or> (\<exists>r name hnd. permitted (permissions h) (origin_of m) name \<and>
            hub_member (''_'' @ name) = Some (Handler hnd) \<and>
            listener parse m h = handle hnd (req_params r) (ListenerCb (origin_of m) r) h))
   \<and> listener parse m h \<noteq> Inl (Internal f)"
proof (intro conjI impI)
  assume "permitted perms origin method"
  then show "method \<in> {''get'', ''set'', ''del'', ''clear'', ''getKeys''}"
    by (rule permitted_recognized)
  then show "\<exists>hnd. hub_member (''_'' @ method) = Some (Handler hnd) \<and> dispatch method = handle hnd"
    by (rule member_of_recognized)
next
  show routes: "listener parse m h = Inr h
      \<or> listener parse m h = Inr (post_control ''cross-storage:ready'' (msg_origin m) h)
      \<or> (\<exists>r name. \<not> permitted (permissions h) (origin_of m) name \<and>
            listener parse m h =
              Inr (postMessage (origin_of m) r (JStr (''Invalid permissions for '' @ name)) JUndefined h))
      \<or> (\<exists>r name hnd. permitted (permissions h) (origin_of m) name \<and>
            hub_member (''_'' @ name) = Some (Handler hnd) \<and>
            listener parse m h = handle hnd (req_params r) (ListenerCb (origin_of m) r) h)"
    using listener_cases [of parse m h]
    by (metis member_of_recognized permitted_recognized)
  then show "listener parse m h \<noteq> Inl (Internal f)"
    using handle_not_internal by (metis Inl_Inr_False)
qed

text \<open>
  A table that lists \<open>listener\<close> beside \<open>get\<close>: \<open>get\<close> is dispatched to its handler, and
  the method \<open>cross-storage:listener\<close> does not reach \<open>_listener\<close>.
\<close>

theorem dispatch_confined_witness:
  "permitted [Entry (RegExp (\<lambda>s. s = ''http://a.com'')) (JArr [JStr ''get'', JStr ''listener''])]
     ''http://a.com'' ''get''
   \<and> (\<exists>hnd. hub_member (''_'' @ ''get'') = Some (Handler hnd) \<and> dispatch ''get'' = handle hnd)
   \<and> listener (\<lambda>d. Parsed \<lparr>req_id = JNum 1, req_method = JStr ''cross-storage:listener'',
                              req_params = NoParams\<rparr>)
         \<lparr>msg_origin = ''http://a.com'', msg_data = ''listener''\<rparr>
         (init (Some [Entry (RegExp (\<lambda>s. s = ''http://a.com''))
                        (JArr [JStr ''get'', JStr ''listener''])]) False Usable)
       \<noteq> Inl (Internal ''_listener'')"
proof -
  let ?P = "[Entry (RegExp (\<lambda>s. s = ''http://a.com'')) (JArr [JStr ''get'', JStr ''listener''])]"
  have a: "permitted ?P ''http://a.com'' ''get''"
    by (simp add: permitted_def available_def)
  note c = dispatch_confined [of ?P "''http://a.com''" "''get''"]
  from c [THEN conjunct1, rule_format, OF a, THEN conjunct2]
  have b: "\<exists>hnd. hub_member (''_'' @ ''get'') = Some (Handler hnd) \<and> dispatch ''get'' = handle hnd" .
  from a b dispatch_confined [THEN conjunct2, THEN conjunct2] show ?thesis
    by (intro conjI)
qed

section \<open>A hub without permissions\<close>

lemma not_permitted_empty: "\<not> permitted [] origin method"
  by (simp add: permitted_def)

lemma listener_denied:
  assumes "permissions h = []"
  shows "\<exists>h'. listener parse m h = Inr h' \<and> permissions h' = [] \<and> calls h' = calls h
           \<and> installed h' = installed h"
  using assms unfolding listener_def Let_def
  by (auto simp: not_permitted_empty post_control_def postMessage_def
      split: parsed.splits jsval.splits option.splits)

lemma drive_denied:
  assumes "permissions h = []" and "calls h = []"
  shows "\<exists>h'. drive parse es (h, s) = Inr (h', s) \<and> permissions h' = [] \<and> calls h' = []"
  using assms
proof (induction es arbitrary: h)
  case Nil
  then show ?case by simp
next
  case (Cons ev es)
  show ?case
  proof (cases ev)
    case (Receive m)
    from listener_denied [OF Cons.prems(1), of parse m]
    obtain h1 where l: "listener parse m h = Inr h1" and p: "permissions h1 = []"
      and c: "calls h1 = calls h" by blast
    from Cons.IH [OF p] c Cons.prems(2) have "\<exists>h'. drive parse es (h1, s) = Inr (h', s) \<and> permissions h' = [] \<and> calls h' = []"
      by simp
    moreover from Cons.IH [OF Cons.prems] have "\<exists>h'. drive parse es (h, s) = Inr (h', s) \<and> permissions h' = [] \<and> calls h' = []" .
    ultimately show ?thesis using Receive l by simp
  next
    case (Serve k)
    with Cons.IH [OF Cons.prems] Cons.prems(2) show ?thesis
      by (simp add: serve_def)
  qed
qed

text \<open>
  Claim C9. \<open>init\<close> called without permissions, with an adapter given or a usable local
  storage, registers the listener with an empty table. Under it \<open>permitted\<close> is false for
  every origin and method; whatever messages arrive and whatever the store is asked to
  serve afterwards, the adapter is never asked for an operation and the store is
  unchanged; and a request whose method field yields a name gets the reply
  \<open>Invalid permissions for\<close> that name, with no result.
\<close>

theorem default_deny:
  assumes available: "adapter_given \<or> storage = Usable"
      and start: "h0 = init None adapter_given storage"
  shows "installed h0 \<and> permissions h0 = [] \<and> calls h0 = []
       \<and> \<not> permitted (permissions h0) origin method
       \<and> (\<exists>h'. drive parse es (h0, s) = Inr (h', s) \<and> permissions h' = [] \<and> calls h' = [])
       \<and> (permissions h = [] \<and> msg_data m \<noteq> ''cross-storage:poll''
            \<and> msg_data m \<noteq> ''cross-storage:ready'' \<and> parse (msg_data m) = Parsed r
            \<and> req_method r = JStr field \<and> second (js_split field ''cross-storage:'') = Some name
            \<and> name \<noteq> [] \<longrightarrow>
          listener parse m h =
            Inr (postMessage (origin_of m) r (JStr (''Invalid permissions for '' @ name)) JUndefined h))"
proof -
  from available start have i: "installed h0" and p: "permissions h0 = []" and c: "calls h0 = []"
    by (auto simp: init_def)
  from p have n: "\<not> permitted (permissions h0) origin method"
    by (simp add: not_permitted_empty)
  have r: "listener parse m h =
            Inr (postMessage (origin_of m) r (JStr (''Invalid permissions for '' @ name)) JUndefined h)"
    if "permissions h = []" "msg_data m \<noteq> ''cross-storage:poll''"
       "msg_data m \<noteq> ''cross-storage:ready''" "parse (msg_data m) = Parsed r"
       "req_method r = JStr field" "second (js_split field ''cross-storage:'') = Some name" "name \<noteq> []"
    using that
    by (simp add: listener_request [where parse = parse and m = m and r = r and s = field]
          not_permitted_empty)
  from i p c n drive_denied [OF p c] r show ?thesis by blast
qed

text \<open>A \<open>set\<close> request to a hub initialized without permissions.\<close>

theorem default_deny_witness:
  "(False \<or> Usable = Usable)
   \<and> (case drive (\<lambda>d. Parsed \<lparr>req_id = JNum 1, req_method = JStr ''cross-storage:set'',
                                 req_params = Params (JStr ''a'') (JStr ''v'') None\<rparr>)
            [Receive \<lparr>msg_origin = ''http://a.com'', msg_data = ''set''\<rparr>, Serve 0]
            (init None False Usable, [])
       of Inl e \<Rightarrow> None | Inr (h', s') \<Rightarrow> Some (calls h', s')) = Some ([], [])
   \<and> listener (\<lambda>d. Parsed \<lparr>req_id = JNum 1, req_method = JStr ''cross-storage:set'',
                              req_params = Params (JStr ''a'') (JStr ''v'') None\<rparr>)
         \<lparr>msg_origin = ''http://a.com'', msg_data = ''set''\<rparr>
         (init None False Usable)
       = Inr ((init None False Usable)
               \<lparr>posted := [(Control ''cross-storage:ready'', ''*''),
                           (Reply (JNum 1) (JStr ''Invalid permissions for set'') JUndefined,
                            ''http://a.com'')]\<rparr>)"
proof -
  let ?r = "\<lparr>req_id = JNum 1, req_method = JStr ''cross-storage:set'',
             req_params = Params (JStr ''a'') (JStr ''v'') None\<rparr>"
  let ?m = "\<lparr>msg_origin = ''http://a.com'', msg_data = ''set''\<rparr>"
  let ?h = "init None False Usable"
  have av: "False \<or> Usable = Usable" by simp
  note d = default_deny [where parse = "\<lambda>d. Parsed ?r" and es = "[Receive ?m, Serve 0]"
      and s = "[]" and h = ?h and m = ?m, OF av refl]
  from d [THEN conjunct2, THEN conjunct2, THEN conjunct2, THEN conjunct2, THEN conjunct1]
  obtain h' where "drive (\<lambda>d. Parsed ?r) [Receive ?m, Serve 0] (?h, []) = Inr (h', [])"
    and "calls h' = []" by (elim exE conjE)
  then have a: "(case drive (\<lambda>d. Parsed ?r) [Receive ?m, Serve 0] (?h, [])
       of Inl e \<Rightarrow> None | Inr (h', s') \<Rightarrow> Some (calls h', s')) = Some ([], [])"
    by simp
  have pre: "permissions ?h = [] \<and> msg_data ?m \<noteq> ''cross-storage:poll''
            \<and> msg_data ?m \<noteq> ''cross-storage:ready'' \<and> (\<lambda>d. Parsed ?r) (msg_data ?m) = Parsed ?r
            \<and> req_method ?r = JStr ''cross-storage:set''
            \<and> second (js_split ''cross-storage:set'' ''cross-storage:'') = Some ''set''
            \<and> ''set'' \<noteq> []"
    by (simp add: split_names init_def)
  from d [THEN conjunct2, THEN conjunct2, THEN conjunct2, THEN conjunct2, THEN conjunct2,
      rule_format, OF pre]
  have b: "listener (\<lambda>d. Parsed ?r) ?m ?h =
       Inr (?h\<lparr>posted := [(Control ''cross-storage:ready'', ''*''),
                           (Reply (JNum 1) (JStr ''Invalid permissions for set'') JUndefined,
                            ''http://a.com'')]\<rparr>)"
    by (simp add: postMessage_def targetOrigin_def origin_of_def init_def)
  from av a b show ?thesis by (intro conjI)
qed

section \<open>The method field\<close>

lemma split_at_no_occurrence:
  "sep \<noteq> [] \<Longrightarrow> \<not> occurs_before sep (length s) s \<Longrightarrow> split_at sep piece s = [piece @ s]"
proof (induction s arbitrary: piece)
  case Nil
  then show ?case by simp
next
  case (Cons c cs)
  from Cons.prems(2) have here: "\<not> prefix sep (c # cs)"
    by (auto simp: occurs_before_def)
  have "\<not> occurs_before sep (length cs) cs"
  proof
    assume "occurs_before sep (length cs) cs"
    then obtain i where "i < length cs" "prefix sep (drop i cs)"
      by (auto simp: occurs_before_def)
    then have "Suc i < length (c # cs)" "prefix sep (drop (Suc i) (c # cs))" by simp_all
    with Cons.prems(2) show False unfolding occurs_before_def by blast
  qed
  with Cons.IH [OF Cons.prems(1), of "piece @ [c]"] here show ?case by simp
qed

lemma split_at_first:
  "sep \<noteq> [] \<Longrightarrow> \<not> occurs_before sep (length pre) (pre @ sep @ rest) \<Longrightarrow>
   split_at sep piece (pre @ sep @ rest) = (piece @ pre) # split_at sep [] rest"
proof (induction pre arbitrary: piece)
  case Nil
  then obtain c cs where sep: "sep = c # cs" by (cases sep) auto
  then show ?case by simp
next
  case (Cons p ps)
  from Cons.prems(2) have here: "\<not> prefix sep (p # ps @ sep @ rest)"
    by (auto simp: occurs_before_def)
  have "\<not> occurs_before sep (length ps) (ps @ sep @ rest)"
  proof
    assume "occurs_before sep (length ps) (ps @ sep @ rest)"
    then obtain i where "i < length ps" "prefix sep (drop i (ps @ sep @ rest))"
      by (auto simp: occurs_before_def)
    then have "Suc i < length (p # ps)" "prefix sep (drop (Suc i) ((p # ps) @ sep @ rest))"
      by simp_all
    with Cons.prems(2) show False unfolding occurs_before_def by blast
  qed
  with Cons.IH [OF Cons.prems(1), of "piece @ [p]"] here show ?case by simp
qed

lemma first_occurrence:
  assumes "occurs_before sep n s"
  shows "\<exists>pre post. s = pre @ sep @ post \<and> length pre < n \<and> \<not> occurs_before sep (length pre) s"
proof -
  let ?P = "\<lambda>i. i < n \<and> prefix sep (drop i s)"
  from assms obtain i0 where "?P i0" by (auto simp: occurs_before_def)
  define i where "i = (LEAST i. ?P i)"
  from \<open>?P i0\<close> have Pi: "?P i" unfolding i_def by (rule LeastI)
  have least: "\<not> ?P j" if "j < i" for j
    using that not_less_Least unfolding i_def by blast
  from Pi obtain post where d: "drop i s = sep @ post" by (auto simp: prefix_def)
  show ?thesis
  proof (cases "i \<le> length s")
    case True
    have s: "s = take i s @ sep @ post" using d by (metis append_take_drop_id)
    from True have len: "length (take i s) = i" by simp
    have "\<not> occurs_before sep i s"
      using least Pi unfolding occurs_before_def by (metis less_trans)
    with s len Pi show ?thesis by (metis (no_types))
  next
    case False
    with d have "sep = []" "post = []" by simp_all
    then have "s = [] @ sep @ s" by simp
    moreover have "\<not> occurs_before sep (length ([] :: string)) s"
      by (simp add: occurs_before_def)
    moreover from Pi have "length ([] :: string) < n" by simp
    ultimately show ?thesis by blast
  qed
qed

lemma second_no_separator:
  "\<not> occurs_before ''cross-storage:'' (length s) s \<Longrightarrow> second (js_split s ''cross-storage:'') = None"
  by (simp add: js_split_def split_at_no_occurrence second_def)

lemma length_split_at: "0 < length (split_at sep piece s)"
  by (induction sep piece s rule: split_at.induct) auto

lemma second_segment:
  assumes first: "\<not> occurs_before ''cross-storage:'' (length pre) (pre @ ''cross-storage:'' @ name @ rest)"
      and next_one: "\<not> occurs_before ''cross-storage:'' (length name) (name @ rest)"
      and ends: "rest = [] \<or> prefix ''cross-storage:'' rest"
  shows "second (js_split (pre @ ''cross-storage:'' @ name @ rest) ''cross-storage:'') = Some name"
proof -
  let ?sep = "''cross-storage:''"
  have ne: "?sep \<noteq> []" by simp
  have one: "split_at ?sep [] (pre @ ?sep @ name @ rest) = pre # split_at ?sep [] (name @ rest)"
    using split_at_first [OF ne first, of "[]"] by simp
  from ends have "\<exists>more. split_at ?sep [] (name @ rest) = name # more"
  proof
    assume "rest = []"
    with next_one split_at_no_occurrence [OF ne, of name "[]"] show ?thesis by simp
  next
    assume "prefix ?sep rest"
    then obtain post where rest: "rest = ?sep @ post" by (auto simp: prefix_def)
    with next_one split_at_first [OF ne, of name post "[]"] show ?thesis by simp
  qed
  then obtain more where "split_at ?sep [] (name @ rest) = name # more" ..
  with one show ?thesis by (simp add: js_split_def second_def)
qed

lemma method_field_shapes:
  "\<not> occurs_before sep (length s) s
   \<or> (\<exists>pre name rest. s = pre @ sep @ name @ rest
         \<and> \<not> occurs_before sep (length pre) (pre @ sep @ name @ rest)
         \<and> \<not> occurs_before sep (length name) (name @ rest)
         \<and> (rest = [] \<or> prefix sep rest))"
proof (cases "occurs_before sep (length s) s")
  case False
  then show ?thesis by simp
next
  case True
  from first_occurrence [OF True] obtain pre post
    where s: "s = pre @ sep @ post" and first: "\<not> occurs_before sep (length pre) s" by blast
  show ?thesis
  proof (cases "occurs_before sep (length post) post")
    case False
    with s first have "s = pre @ sep @ post @ [] \<and>
        \<not> occurs_before sep (length pre) (pre @ sep @ post @ []) \<and>
        \<not> occurs_before sep (length post) (post @ []) \<and> ([] = [] \<or> prefix sep [])"
      by simp
    then show ?thesis by blast
  next
    case True
    from first_occurrence [OF True] obtain name post'
      where post: "post = name @ sep @ post'" and nxt: "\<not> occurs_before sep (length name) post"
      by blast
    with s first have "s = pre @ sep @ name @ (sep @ post') \<and>
        \<not> occurs_before sep (length pre) (pre @ sep @ name @ (sep @ post')) \<and>
        \<not> occurs_before sep (length name) (name @ (sep @ post')) \<and>
        (sep @ post' = [] \<or> prefix sep (sep @ post'))"
      by simp
    then show ?thesis by blast
  qed
qed

lemma postMessage_changes: "postMessage origin r error result h \<noteq> h"
proof
  assume "postMessage origin r error result h = h"
  then have "posted (postMessage origin r error result h) = posted h" by simp
  then show False by (simp add: postMessage_def)
qed

lemma adapter_call_changes: "adapter_call operation cb h \<noteq> h"
proof
  assume "adapter_call operation cb h = h"
  then have "calls (adapter_call operation cb h) = calls h" by simp
  then show False by (simp add: adapter_call_def)
qed

lemma hub_all_changes: "hub_all params method callback h \<noteq> Inr h"
proof (cases params)
  case None
  then show ?thesis by (simp add: hub_all_def)
next
  case (Some ps)
  show ?thesis
  proof
    assume "hub_all params method callback h = Inr h"
    with Some have "aggs (all_launch method (length (aggs h)) callback 0 ps
                            (h\<lparr>aggs := aggs h @ [all_init ps]\<rparr>)) = aggs h"
      by (simp add: hub_all_def)
    then show False by (simp add: all_launch_eq)
  qed
qed

lemma handle_changes: "handle hnd params callback h \<noteq> Inr h"
  by (cases hnd; cases params)
    (simp_all add: hub_set_def hub_get_def hub_del_def hub_clear_def hub_getKeys_def
      adapter_call_changes hub_all_changes)

lemma dispatch_changes:
  "permitted perms origin name \<Longrightarrow> dispatch name params callback h \<noteq> Inr h"
  using member_of_recognized [OF permitted_recognized] handle_changes by metis

lemma short_no_occurrence: "length s < length sep \<Longrightarrow> \<not> occurs_before sep n s"
proof
  assume short: "length s < length sep" and "occurs_before sep n s"
  then obtain i where "prefix sep (drop i s)" by (auto simp: occurs_before_def)
  then have "length sep \<le> length (drop i s)" by (rule prefix_length_le)
  with short show False by simp
qed

text \<open>
  Claim C5. For a parsed payload: the listener leaves the hub as it is (no reply, no
  dispatch) when the method field is not a string, and when it is a string in which
  \<open>cross-storage:\<close> does not occur. When \<open>cross-storage:\<close> occurs, the text between its
  first occurrence and the next one (or the end of the string) is the name: an empty name
  is dropped as well, any other name is authorized and then dispatched or answered with a
  permission error, whatever stands before the first occurrence or from the second one
  on. Every string has one of these two shapes.
\<close>

theorem listener_method_field:
  assumes data: "msg_data m \<noteq> ''cross-storage:poll''" "msg_data m \<noteq> ''cross-storage:ready''"
        "parse (msg_data m) = Parsed r"
  shows "((\<forall>s. req_method r \<noteq> JStr s) \<longrightarrow> listener parse m h = Inr h)
       \<and> (req_method r = JStr s \<and> \<not> occurs_before ''cross-storage:'' (length s) s \<longrightarrow>
            listener parse m h = Inr h)
       \<and> (req_method r = JStr (pre @ ''cross-storage:'' @ name @ rest)
            \<and> \<not> occurs_before ''cross-storage:'' (length pre) (pre @ ''cross-storage:'' @ name @ rest)
            \<and> \<not> occurs_before ''cross-storage:'' (length name) (name @ rest)
            \<and> (rest = [] \<or> prefix ''cross-storage:'' rest) \<longrightarrow>
            listener parse m h =
              (if name = [] then Inr h
               else if \<not> permitted (permissions h) (origin_of m) name
               then Inr (postMessage (origin_of m) r
                           (JStr (''Invalid permissions for '' @ name)) JUndefined h)
               else dispatch name (req_params r) (ListenerCb (origin_of m) r) h)
            \<and> (name \<noteq> [] \<longrightarrow> listener parse m h \<noteq> Inr h))
       \<and> (\<not> occurs_before ''cross-storage:'' (length s) s
            \<or> (\<exists>pre name rest. s = pre @ ''cross-storage:'' @ name @ rest
                 \<and> \<not> occurs_before ''cross-storage:'' (length pre) (pre @ ''cross-storage:'' @ name @ rest)
                 \<and> \<not> occurs_before ''cross-storage:'' (length name) (name @ rest)
                 \<and> (rest = [] \<or> prefix ''cross-storage:'' rest)))"
proof -
  have not_string: "(\<forall>s. req_method r \<noteq> JStr s) \<longrightarrow> listener parse m h = Inr h"
    using data by (cases "req_method r") (simp_all add: listener_def)
  have no_separator: "req_method r = JStr s \<and> \<not> occurs_before ''cross-storage:'' (length s) s \<longrightarrow>
            listener parse m h = Inr h"
    using data by (simp add: listener_def second_no_separator)
  have segment: "req_method r = JStr (pre @ ''cross-storage:'' @ name @ rest)
            \<and> \<not> occurs_before ''cross-storage:'' (length pre) (pre @ ''cross-storage:'' @ name @ rest)
            \<and> \<not> occurs_before ''cross-storage:'' (length name) (name @ rest)
            \<and> (rest = [] \<or> prefix ''cross-storage:'' rest) \<longrightarrow>
            listener parse m h =
              (if name = [] then Inr h
               else if \<not> permitted (permissions h) (origin_of m) name
               then Inr (postMessage (origin_of m) r
                           (JStr (''Invalid permissions for '' @ name)) JUndefined h)
               else dispatch name (req_params r) (ListenerCb (origin_of m) r) h)
            \<and> (name \<noteq> [] \<longrightarrow> listener parse m h \<noteq> Inr h)"
  proof
    assume a: "req_method r = JStr (pre @ ''cross-storage:'' @ name @ rest)
            \<and> \<not> occurs_before ''cross-storage:'' (length pre) (pre @ ''cross-storage:'' @ name @ rest)
            \<and> \<not> occurs_before ''cross-storage:'' (length name) (name @ rest)
            \<and> (rest = [] \<or> prefix ''cross-storage:'' rest)"
    then have "second (js_split (pre @ ''cross-storage:'' @ name @ rest) ''cross-storage:'') = Some name"
      by (intro second_segment) simp_all
    with data a have l: "listener parse m h =
              (if name = [] then Inr h
               else if \<not> permitted (permissions h) (origin_of m) name
               then Inr (postMessage (origin_of m) r
                           (JStr (''Invalid permissions for '' @ name)) JUndefined h)
               else dispatch name (req_params r) (ListenerCb (origin_of m) r) h)"
      by (simp add: listener_def)
    have "listener parse m h \<noteq> Inr h" if "name \<noteq> []"
      using that l by (simp add: postMessage_changes dispatch_changes)
    with l show "listener parse m h =
              (if name = [] then Inr h
               else if \<not> permitted (permissions h) (origin_of m) name
               then Inr (postMessage (origin_of m) r
                           (JStr (''Invalid permissions for '' @ name)) JUndefined h)
               else dispatch name (req_params r) (ListenerCb (origin_of m) r) h)
            \<and> (name \<noteq> [] \<longrightarrow> listener parse m h \<noteq> Inr h)"
      by (intro conjI impI)
  qed
  have shapes: "\<not> occurs_before ''cross-storage:'' (length s) s
            \<or> (\<exists>pre name rest. s = pre @ ''cross-storage:'' @ name @ rest
                 \<and> \<not> occurs_before ''cross-storage:'' (length pre) (pre @ ''cross-storage:'' @ name @ rest)
                 \<and> \<not> occurs_before ''cross-storage:'' (length name) (name @ rest)
                 \<and> (rest = [] \<or> prefix ''cross-storage:'' rest))"
    by (rule method_field_shapes)
  from not_string no_separator segment shapes show ?thesis by (intro conjI)
qed

text \<open>
  The method fields \<open>5\<close> and \<open>"get"\<close> are dropped; \<open>"xcross-storage:clear"\<close> is taken as
  \<open>clear\<close>, which this table does not permit.
\<close>

theorem listener_method_field_witness:
  "listener (\<lambda>d. Parsed \<lparr>req_id = JNum 1, req_method = JNum 5, req_params = NoParams\<rparr>)
     \<lparr>msg_origin = ''http://a.com'', msg_data = ''get''\<rparr>
     (init (Some [Entry (RegExp (\<lambda>s. s = ''http://a.com''))
                    (JArr [JStr ''get'', JStr ''set''])]) False Usable)
   = Inr (init (Some [Entry (RegExp (\<lambda>s. s = ''http://a.com''))
                        (JArr [JStr ''get'', JStr ''set''])]) False Usable)
   \<and> \<not> occurs_before ''cross-storage:'' (length ''get'') ''get''
   \<and> listener (\<lambda>d. Parsed \<lparr>req_id = JNum 1, req_method = JStr ''get'', req_params = NoParams\<rparr>)
       \<lparr>msg_origin = ''http://a.com'', msg_data = ''get''\<rparr>
       (init (Some [Entry (RegExp (\<lambda>s. s = ''http://a.com''))
                      (JArr [JStr ''get'', JStr ''set''])]) False Usable)
     = Inr (init (Some [Entry (RegExp (\<lambda>s. s = ''http://a.com''))
                          (JArr [JStr ''get'', JStr ''set''])]) False Usable)
   \<and> \<not> occurs_before ''cross-storage:'' (length ''x'') (''x'' @ ''cross-storage:'' @ ''clear'' @ [])
   \<and> \<not> occurs_before ''cross-storage:'' (length ''clear'') (''clear'' @ [])
   \<and> listener (\<lambda>d. Parsed \<lparr>req_id = JNum 1, req_method = JStr (''x'' @ ''cross-storage:'' @ ''clear'' @ []),
                              req_params = NoParams\<rparr>)
       \<lparr>msg_origin = ''http://a.com'', msg_data = ''get''\<rparr>
       (init (Some [Entry (RegExp (\<lambda>s. s = ''http://a.com''))
                      (JArr [JStr ''get'', JStr ''set''])]) False Usable)
     = Inr (postMessage ''http://a.com''
              \<lparr>req_id = JNum 1, req_method = JStr (''x'' @ ''cross-storage:'' @ ''clear'' @ []),
                req_params = NoParams\<rparr>
              (JStr ''Invalid permissions for clear'') JUndefined
              (init (Some [Entry (RegExp (\<lambda>s. s = ''http://a.com''))
                             (JArr [JStr ''get'', JStr ''set''])]) False Usable))"
proof -
  let ?h = "init (Some [Entry (RegExp (\<lambda>s. s = ''http://a.com''))
                          (JArr [JStr ''get'', JStr ''set''])]) False Usable"
  let ?m = "\<lparr>msg_origin = ''http://a.com'', msg_data = ''get''\<rparr>"
  let ?r1 = "\<lparr>req_id = JNum 1, req_method = JNum 5, req_params = NoParams\<rparr>"
  let ?r2 = "\<lparr>req_id = JNum 1, req_method = JStr ''get'', req_params = NoParams\<rparr>"
  let ?r3 = "\<lparr>req_id = JNum 1, req_method = JStr (''x'' @ ''cross-storage:'' @ ''clear'' @ []),
              req_params = NoParams\<rparr>"
  have d1: "msg_data ?m \<noteq> ''cross-storage:poll''" "msg_data ?m \<noteq> ''cross-storage:ready''"
    "(\<lambda>d. Parsed ?r1) (msg_data ?m) = Parsed ?r1" by simp_all
  have d2: "msg_data ?m \<noteq> ''cross-storage:poll''" "msg_data ?m \<noteq> ''cross-storage:ready''"
    "(\<lambda>d. Parsed ?r2) (msg_data ?m) = Parsed ?r2" by simp_all
  have d3: "msg_data ?m \<noteq> ''cross-storage:poll''" "msg_data ?m \<noteq> ''cross-storage:ready''"
    "(\<lambda>d. Parsed ?r3) (msg_data ?m) = Parsed ?r3" by simp_all
  have n1: "\<forall>s. req_method ?r1 \<noteq> JStr s" by simp
  have a: "listener (\<lambda>d. Parsed ?r1) ?m ?h = Inr ?h"
    by (rule listener_method_field [where m = ?m, OF d1, THEN conjunct1, THEN mp, OF n1])
  have n2: "\<not> occurs_before ''cross-storage:'' (length ''get'') ''get''"
    by (rule short_no_occurrence) simp
  then have n2': "req_method ?r2 = JStr ''get'' \<and> \<not> occurs_before ''cross-storage:'' (length ''get'') ''get''"
    by simp
  have b: "listener (\<lambda>d. Parsed ?r2) ?m ?h = Inr ?h"
    by (rule listener_method_field [where m = ?m, OF d2, THEN conjunct2, THEN conjunct1,
          THEN mp, OF n2'])
  have n3: "\<not> occurs_before ''cross-storage:'' (length ''x'') (''x'' @ ''cross-storage:'' @ ''clear'' @ [])"
    by (simp add: occurs_before_def)
  have n4: "\<not> occurs_before ''cross-storage:'' (length ''clear'') (''clear'' @ [])"
    by (rule short_no_occurrence) simp
  have n5: "req_method ?r3 = JStr (''x'' @ ''cross-storage:'' @ ''clear'' @ [])
            \<and> \<not> occurs_before ''cross-storage:'' (length ''x'') (''x'' @ ''cross-storage:'' @ ''clear'' @ [])
            \<and> \<not> occurs_before ''cross-storage:'' (length ''clear'') (''clear'' @ [])
            \<and> ([] = [] \<or> prefix ''cross-storage:'' [])"
    using n3 n4 by simp
  have deny: "\<not> permitted (permissions ?h) (origin_of ?m) ''clear''"
    by (simp add: init_def origin_of_def permitted_def available_def)
  from listener_method_field [where m = ?m and h = ?h, OF d3, THEN conjunct2, THEN conjunct2,
      THEN conjunct1, THEN mp, OF n5, THEN conjunct1] deny
  have c: "listener (\<lambda>d. Parsed ?r3) ?m ?h =
      Inr (postMessage ''http://a.com'' ?r3 (JStr ''Invalid permissions for clear'') JUndefined ?h)"
    by (simp add: origin_of_def)
  from a n2 b n3 n4 c show ?thesis by (intro conjI)
qed

text \<open>
  A method field that does not start with \<open>cross-storage:\<close>: \<open>"xcross-storage:get"\<close> from a
  permitted origin is dispatched as \<open>get\<close>, and the adapter is asked for \<open>getItem\<close>.
\<close>

theorem prefixed_method_dispatched:
  "listener (\<lambda>d. Parsed \<lparr>req_id = JNum 1, req_method = JStr ''xcross-storage:get'',
                            req_params = Params JUndefined JUndefined (Some [JStr ''a''])\<rparr>)
     \<lparr>msg_origin = ''http://a.com'', msg_data = ''get''\<rparr>
     (init (Some [Entry (RegExp (\<lambda>s. s = ''http://a.com''))
                    (JArr [JStr ''get'', JStr ''set''])]) False Usable)
   = Inr ((init (Some [Entry (RegExp (\<lambda>s. s = ''http://a.com''))
                         (JArr [JStr ''get'', JStr ''set''])]) False Usable)
           \<lparr>aggs := [\<lparr>results = [JUndefined], pending = 1\<rparr>],
             calls := [\<lparr>call_op = GetItem (JStr ''a''),
                        call_cb = ItemCb 0 0
                          (GetCb (ListenerCb ''http://a.com''
                             \<lparr>req_id = JNum 1, req_method = JStr ''xcross-storage:get'',
                               req_params = Params JUndefined JUndefined (Some [JStr ''a''])\<rparr>))\<rparr>]\<rparr>)"
proof -
  let ?r = "\<lparr>req_id = JNum 1, req_method = JStr ''xcross-storage:get'',
             req_params = Params JUndefined JUndefined (Some [JStr ''a''])\<rparr>"
  let ?m = "\<lparr>msg_origin = ''http://a.com'', msg_data = ''get''\<rparr>"
  have data: "msg_data ?m \<noteq> ''cross-storage:poll''" "msg_data ?m \<noteq> ''cross-storage:ready''"
    "(\<lambda>d. Parsed ?r) (msg_data ?m) = Parsed ?r" by simp_all
  have meth: "req_method ?r = JStr ''xcross-storage:get''" by simp
  have name: "second (js_split ''xcross-storage:get'' ''cross-storage:'') = Some ''get''"
    by (simp add: js_split_def second_def)
  show ?thesis
    using example_permits(2) [of "''get''"]
    by (simp add: listener_request [where m = ?m, OF data meth name] dispatch_names hub_get_def
          hub_all_eq all_init_def)
      (simp add: init_def origin_of_def)
qed

section \<open>Fan-out seen from a request\<close>

text \<open>
  A permitted \<open>get\<close> of two keys whose \<open>getItem\<close> calls both fail: two replies are posted for
  the one request, each with the message of one failure.
\<close>

lemma get_fails_twice_replies_twice:
  "(case listener (\<lambda>d. Parsed \<lparr>req_id = JNum 7, req_method = JStr ''cross-storage:get'',
                            req_params = Params JUndefined JUndefined (Some [JStr ''a'', JStr ''b''])\<rparr>)
           \<lparr>msg_origin = ''http://a.com'', msg_data = ''get''\<rparr>
           (init (Some [Entry (RegExp (\<lambda>s. s = ''http://a.com''))
                          (JArr [JStr ''get'', JStr ''set''])]) False Usable)
    of Inl e \<Rightarrow> None
     | Inr h \<Rightarrow>
        (case run [(0, JObj [(''message'', JStr ''denied'')], JUndefined),
                   (1, JObj [(''message'', JStr ''denied too'')], JUndefined)] h
         of Inl e \<Rightarrow> None | Inr h' \<Rightarrow> Some (posted h')))
   = Some [(Control ''cross-storage:ready'', ''*''),
           (Reply (JNum 7) (JStr ''denied'') JUndefined, ''http://a.com''),
           (Reply (JNum 7) (JStr ''denied too'') JUndefined, ''http://a.com'')]"
proof -
  let ?r = "\<lparr>req_id = JNum 7, req_method = JStr ''cross-storage:get'',
             req_params = Params JUndefined JUndefined (Some [JStr ''a'', JStr ''b''])\<rparr>"
  let ?m = "\<lparr>msg_origin = ''http://a.com'', msg_data = ''get''\<rparr>"
  have data: "msg_data ?m \<noteq> ''cross-storage:poll''" "msg_data ?m \<noteq> ''cross-storage:ready''"
    "(\<lambda>d. Parsed ?r) (msg_data ?m) = Parsed ?r" by simp_all
  have meth: "req_method ?r = JStr ''cross-storage:get''" by simp
  show ?thesis
    using example_permits(2) [of "''get''"]
    by (simp add: listener_request [where m = ?m, OF data meth split_names(1)] dispatch_names
          hub_get_def hub_all_eq complete_def all_item_cb_def all_init_def init_def
          postMessage_def targetOrigin_def origin_of_def)
qed

text \<open>
  A permitted \<open>getKeys\<close> over the empty store: the store answers \<open>length\<close> with \<open>0\<close>, \<open>_all\<close>
  runs over no index, and no reply is ever posted (no operation is left to complete).
\<close>

lemma getKeys_of_empty_store_never_replies:
  "(case drive (\<lambda>d. Parsed \<lparr>req_id = JNum 7, req_method = JStr ''cross-storage:getKeys'',
                               req_params = NoParams\<rparr>)
           [Receive \<lparr>msg_origin = ''http://a.com'', msg_data = ''getKeys''\<rparr>, Serve 0]
           (init (Some [Entry (RegExp (\<lambda>s. s = ''http://a.com''))
                          (JArr [JStr ''getKeys''])]) False Usable, [])
    of Inl e \<Rightarrow> None | Inr (h', s') \<Rightarrow> Some (posted h', map call_op (calls h')))
   = Some ([(Control ''cross-storage:ready'', ''*'')], [Length])"
proof -
  let ?r = "\<lparr>req_id = JNum 7, req_method = JStr ''cross-storage:getKeys'', req_params = NoParams\<rparr>"
  let ?m = "\<lparr>msg_origin = ''http://a.com'', msg_data = ''getKeys''\<rparr>"
  let ?h = "init (Some [Entry (RegExp (\<lambda>s. s = ''http://a.com'')) (JArr [JStr ''getKeys''])]) False Usable"
  have data: "msg_data ?m \<noteq> ''cross-storage:poll''" "msg_data ?m \<noteq> ''cross-storage:ready''"
    "(\<lambda>d. Parsed ?r) (msg_data ?m) = Parsed ?r" by simp_all
  have meth: "req_method ?r = JStr ''cross-storage:getKeys''" by simp
  have perm: "permitted (permissions ?h) (origin_of ?m) ''getKeys''"
    by (simp add: init_def origin_of_def permitted_def available_def)
  have inst: "installed ?h" by (simp add: init_def)
  have l: "listener (\<lambda>d. Parsed ?r) ?m ?h =
             Inr (adapter_call Length (LengthCb (ListenerCb (origin_of ?m) ?r)) ?h)"
    using perm
    by (simp add: listener_request [where m = ?m, OF data meth split_names(5)] dispatch_names
          hub_getKeys_def)
  show ?thesis
    using inst l
    by (simp add: serve_def complete_def adapter_call_def indices_def hub_all_def all_init_def
          init_def)
qed

end
